theory Spec2Isabelle
  imports Main
begin

section \<open>Strings of the host language\<close>

text \<open>
  A string is the sequence of its code units; the model takes the code units below 256, so
  a \<^typ>\<open>string\<close> is a source string in that range. The classes of the regular-expression
  engine on these units: \<open>\s\<close> is tab, line feed, vertical tab, form feed, carriage return,
  space and no-break space; a line terminator (what \<open>.\<close> refuses) is line feed or carriage
  return; \<open>\d\<close> is an ASCII digit.
\<close>

definition is_whitespace :: "char \<Rightarrow> bool" where
  "is_whitespace c \<longleftrightarrow>
     c = CHR 0x09 \<or> c = CHR 0x0A \<or> c = CHR 0x0B \<or> c = CHR 0x0C \<or> c = CHR 0x0D \<or>
     c = CHR 0x20 \<or> c = CHR 0xA0"

definition is_line_terminator :: "char \<Rightarrow> bool" where
  "is_line_terminator c \<longleftrightarrow> c = CHR 0x0A \<or> c = CHR 0x0D"

definition is_digit :: "char \<Rightarrow> bool" where
  "is_digit c \<longleftrightarrow> c \<in> set ''0123456789''"

text \<open>\<open>s.trim()\<close>: white space and line terminators go from both ends.\<close>

definition trim :: "string \<Rightarrow> string" where
  "trim s = rev (dropWhile is_whitespace (rev (dropWhile is_whitespace s)))"

text \<open>\<open>s.split("\n")\<close>: the empty string gives one empty line.\<close>

fun split_lines :: "string \<Rightarrow> string list" where
  "split_lines [] = [[]]"
| "split_lines (c # cs) =
     (if c = CHR 0x0A then [] # split_lines cs
      else (case split_lines cs of [] \<Rightarrow> [[c]] | l # ls \<Rightarrow> (c # l) # ls))"

text \<open>\<open>xs.join(sep)\<close>.\<close>

fun join :: "string \<Rightarrow> string list \<Rightarrow> string" where
  "join sep [] = []"
| "join sep [x] = x"
| "join sep (x # y # ys) = x @ sep @ join sep (y # ys)"

abbreviation newline :: string where
  "newline \<equiv> [CHR 0x0A]"

text \<open>\<open>s.startsWith(p, pos)\<close>, \<open>s.slice(a, b)\<close> (of a string or an array),
  \<open>s.slice(a)\<close> and \<open>s[i]\<close> (\<open>undefined\<close> out of range is \<open>None\<close>).\<close>

definition startsWith :: "string \<Rightarrow> string \<Rightarrow> nat \<Rightarrow> bool" where
  "startsWith s p pos \<longleftrightarrow> take (length p) (drop pos s) = p"

definition slice :: "'a list \<Rightarrow> nat \<Rightarrow> nat \<Rightarrow> 'a list" where
  "slice s a b = take (b - a) (drop a s)"

definition slice_from :: "string \<Rightarrow> nat \<Rightarrow> string" where
  "slice_from s a = drop a s"

definition char_at :: "string \<Rightarrow> nat \<Rightarrow> char option" where
  "char_at s i = (if i < length s then Some (s ! i) else None)"

text \<open>\<open>s.indexOf(p, from)\<close>: the first position at or after \<open>from\<close> where \<open>p\<close>
  occurs, \<open>None\<close> for \<open>-1\<close>.\<close>

fun indexOf_scan :: "string \<Rightarrow> string \<Rightarrow> nat \<Rightarrow> nat option" where
  "indexOf_scan [] p k = (if p = [] then Some k else None)"
| "indexOf_scan (c # cs) p k =
     (if take (length p) (c # cs) = p then Some k else indexOf_scan cs p (Suc k))"

definition indexOf :: "string \<Rightarrow> string \<Rightarrow> nat \<Rightarrow> nat option" where
  "indexOf s p from = indexOf_scan (drop from s) p (min from (length s))"

text \<open>\<open>s.replace(/c/g, r)\<close> for a one-character pattern.\<close>

definition replace_char :: "char \<Rightarrow> string \<Rightarrow> string \<Rightarrow> string" where
  "replace_char c r s = concat (map (\<lambda>x. if x = c then r else [x]) s)"

definition escapeHtml :: "string \<Rightarrow> string" where
  "escapeHtml text =
     replace_char (CHR 0x27) ''&#039;''
       (replace_char (CHR 0x22) ''&quot;''
         (replace_char (CHR ''>'') ''&gt;''
           (replace_char (CHR ''<'') ''&lt;''
             (replace_char (CHR ''&'') ''&amp;'' text))))"

section \<open>Tokens\<close>

datatype token_type =
  Paragraph | Header | Code_block | Code | Bold | Italic | Link | List | List_item
  | Blockquote | Text

text \<open>The interface \<open>Token\<close>: \<open>type\<close> and \<open>raw\<close> are always there, every other field
  is optional.\<close>

datatype token = Token
  (type: token_type)
  (raw: string)
  (token_text: "string option")
  (depth: "nat option")
  (items: "token list option")
  (lang: "string option")
  (url: "string option")
  (children: "token list option")
  (ordered: "bool option")

text \<open>The object literals of the parser, field by field.\<close>

definition inline_token :: "token_type \<Rightarrow> string \<Rightarrow> string \<Rightarrow> token" where
  "inline_token ty r t = Token ty r (Some t) None None None None None None"

definition link_token :: "string \<Rightarrow> string \<Rightarrow> string \<Rightarrow> token" where
  "link_token r t u = Token Link r (Some t) None None None (Some u) None None"

definition paragraph_token :: "string \<Rightarrow> token list \<Rightarrow> token" where
  "paragraph_token r cs = Token Paragraph r None None None None None (Some cs) None"

definition header_token :: "string \<Rightarrow> string \<Rightarrow> nat \<Rightarrow> token list \<Rightarrow> token" where
  "header_token r t d cs = Token Header r (Some t) (Some d) None None None (Some cs) None"

definition blockquote_token :: "string \<Rightarrow> token list \<Rightarrow> token" where
  "blockquote_token r cs = Token Blockquote r None None None None None (Some cs) None"

definition code_block_token :: "string \<Rightarrow> string \<Rightarrow> string \<Rightarrow> token" where
  "code_block_token r t l = Token Code_block r (Some t) None None (Some l) None None None"

definition list_token :: "string \<Rightarrow> bool \<Rightarrow> token list \<Rightarrow> token" where
  "list_token r ord its = Token List r None None (Some its) None None None (Some ord)"

section \<open>The inline tokenizer\<close>

text \<open>\<open>if (current) tokens.push({type: "text", raw: current, text: current})\<close>.\<close>

definition flush :: "token list \<Rightarrow> string \<Rightarrow> token list" where
  "flush tokens current =
     (if current \<noteq> [] then tokens @ [inline_token Text current current] else tokens)"

text \<open>The four guards of the scan, each giving the position(s) found by \<open>indexOf\<close> when
  its construct is recognised at \<open>i\<close>.\<close>

definition bold_end :: "string \<Rightarrow> nat \<Rightarrow> nat option" where
  "bold_end text i =
     (if startsWith text ''**'' i \<or> startsWith text ''__'' i
      then indexOf text (take 2 (drop i text)) (i + 2) else None)"

definition italic_end :: "string \<Rightarrow> nat \<Rightarrow> nat option" where
  "italic_end text i =
     (if char_at text i = Some (CHR ''*'') \<or> char_at text i = Some (CHR ''_'')
      then indexOf text [text ! i] (i + 1) else None)"

definition code_end :: "string \<Rightarrow> nat \<Rightarrow> nat option" where
  "code_end text i =
     (if char_at text i = Some (CHR ''`'') then indexOf text ''`'' (i + 1) else None)"

definition link_ends :: "string \<Rightarrow> nat \<Rightarrow> (nat \<times> nat) option" where
  "link_ends text i =
     (if char_at text i = Some (CHR ''['') then
        (case indexOf text '']'' i of
           None \<Rightarrow> None
         | Some titleEnd \<Rightarrow>
             if char_at text (titleEnd + 1) = Some (CHR ''('') then
               (case indexOf text '')'' (titleEnd + 2) of
                  None \<Rightarrow> None
                | Some urlEnd \<Rightarrow> Some (titleEnd, urlEnd))
             else None)
      else None)"

lemma indexOf_scan_ge: "indexOf_scan s p k = Some e \<Longrightarrow> k \<le> e"
proof (induction s arbitrary: k)
  case Nil
  then show ?case by (simp split: if_splits)
next
  case (Cons c cs)
  show ?case
  proof (cases "take (length p) (c # cs) = p")
    case True
    with Cons.prems show ?thesis by simp
  next
    case False
    with Cons.prems have "indexOf_scan cs p (Suc k) = Some e" by simp
    from Cons.IH[OF this] show ?thesis by simp
  qed
qed

lemma indexOf_ge: "indexOf s p from = Some e \<Longrightarrow> from \<le> length s \<Longrightarrow> from \<le> e"
  unfolding indexOf_def by (drule indexOf_scan_ge) simp

lemma startsWith_length: "p \<noteq> [] \<Longrightarrow> startsWith s p pos \<Longrightarrow> pos + length p \<le> length s"
proof -
  assume "p \<noteq> []" and a: "startsWith s p pos"
  have "length (take (length p) (drop pos s)) = length p" using a unfolding startsWith_def by simp
  with \<open>p \<noteq> []\<close> show ?thesis by (cases p) (auto simp: min_def split: if_splits)
qed

lemma bold_end_ge: "bold_end text i = Some e \<Longrightarrow> i + 2 \<le> e"
proof -
  assume a: "bold_end text i = Some e"
  then have sw: "startsWith text ''**'' i \<or> startsWith text ''__'' i"
    and ix: "indexOf text (take 2 (drop i text)) (i + 2) = Some e"
    unfolding bold_end_def by (auto split: if_splits)
  from sw have "i + 2 \<le> length text"
    using startsWith_length [of "''**''" _ i] startsWith_length [of "''__''" _ i] by auto
  with ix show ?thesis by (rule indexOf_ge)
qed

lemma italic_end_ge: "italic_end text i = Some e \<Longrightarrow> i + 1 \<le> e"
  unfolding italic_end_def char_at_def
  by (auto split: if_splits intro: indexOf_ge)

lemma code_end_ge: "code_end text i = Some e \<Longrightarrow> i + 1 \<le> e"
  unfolding code_end_def char_at_def
  by (auto split: if_splits intro: indexOf_ge)

lemma link_ends_ge: "link_ends text i = Some (t, u) \<Longrightarrow> i \<le> t \<and> t + 2 \<le> u"
  unfolding link_ends_def char_at_def
  by (auto split: if_splits option.splits intro: indexOf_ge)

function parseInline_loop :: "string \<Rightarrow> token list \<Rightarrow> string \<Rightarrow> nat \<Rightarrow> token list" where
  "parseInline_loop text tokens current i =
     (if i < length text then
        (case bold_end text i of
           Some end \<Rightarrow>
             parseInline_loop text
               (flush tokens current
                  @ [inline_token Bold (slice text i (end + 2)) (slice text (i + 2) end)])
               [] (end + 2)
         | None \<Rightarrow>
        (case italic_end text i of
           Some end \<Rightarrow>
             parseInline_loop text
               (flush tokens current
                  @ [inline_token Italic (slice text i (end + 1)) (slice text (i + 1) end)])
               [] (end + 1)
         | None \<Rightarrow>
        (case code_end text i of
           Some end \<Rightarrow>
             parseInline_loop text
               (flush tokens current
                  @ [inline_token Code (slice text i (end + 1)) (slice text (i + 1) end)])
               [] (end + 1)
         | None \<Rightarrow>
        (case link_ends text i of
           Some (titleEnd, urlEnd) \<Rightarrow>
             parseInline_loop text
               (flush tokens current
                  @ [link_token (slice text i (urlEnd + 1)) (slice text (i + 1) titleEnd)
                       (slice text (titleEnd + 2) urlEnd)])
               [] (urlEnd + 1)
         | None \<Rightarrow> parseInline_loop text tokens (current @ [text ! i]) (i + 1)))))
      else flush tokens current)"
  by pat_completeness auto
termination
  by (relation "measure (\<lambda>(s, tokens, current, i). length s - i)")
     (auto dest!: bold_end_ge italic_end_ge code_end_ge link_ends_ge)

declare parseInline_loop.simps [simp del]

definition parseInline :: "string \<Rightarrow> token list" where
  "parseInline text = parseInline_loop text [] [] 0"


section \<open>Regular expressions of the block tokenizer\<close>

text \<open>
  The rest of a line against \<open>\s+(.+)$\<close>, giving the capture. \<open>\s+\<close> is greedy and
  \<open>.\<close> refuses line terminators, which are all white space: when something follows the
  white space, the capture is all of it and must hold no line terminator; when the rest is
  white space only, \<open>\s+\<close> gives back its last character to \<open>.+\<close>.
\<close>

definition space_then_text :: "string \<Rightarrow> string option" where
  "space_then_text rest =
     (let w = takeWhile is_whitespace rest; t = dropWhile is_whitespace rest in
      if w = [] then None
      else if t \<noteq> [] then (if list_ex is_line_terminator t then None else Some t)
      else if 2 \<le> length w \<and> \<not> is_line_terminator (last w) then Some [last w]
      else None)"

text \<open>The rest of a line against \<open>\s+.+\<close> with no anchor at the end: one character
  that is no line terminator after the white space is enough.\<close>

definition space_then_some :: "string \<Rightarrow> bool" where
  "space_then_some rest \<longleftrightarrow>
     (let w = takeWhile is_whitespace rest; t = dropWhile is_whitespace rest in
      w \<noteq> [] \<and> (t \<noteq> [] \<or> list_ex (\<lambda>c. \<not> is_line_terminator c) (tl w)))"

text \<open>\<open>line.match(/^(#{1,6})(\s+(.+))?$/)\<close>: the length of group 1 and group 3, which is
  there exactly when group 2 is. A run of hashes is followed by the end or by white space,
  so group 1 is the whole run.\<close>

definition header_match :: "string \<Rightarrow> (nat \<times> string option) option" where
  "header_match line =
     (let n = length (takeWhile (\<lambda>c. c = CHR ''#'') line); rest = drop n line in
      if n < 1 \<or> 6 < n then None
      else if rest = [] then Some (n, None)
      else map_option (\<lambda>t. (n, Some t)) (space_then_text rest))"

text \<open>\<open>/^([-*+])\s+(.+)$/\<close> and \<open>/^(\d+\.)\s+(.+)$/\<close>: marker and content.\<close>

definition unordered_item :: "string \<Rightarrow> (string \<times> string) option" where
  "unordered_item s =
     (case s of
        [] \<Rightarrow> None
      | c # rest \<Rightarrow>
          if c \<in> set ''-*+'' then map_option (\<lambda>t. ([c], t)) (space_then_text rest) else None)"

definition ordered_item :: "string \<Rightarrow> (string \<times> string) option" where
  "ordered_item s =
     (let d = takeWhile is_digit s in
      if d = [] then None
      else (case dropWhile is_digit s of
              [] \<Rightarrow> None
            | c # rest \<Rightarrow>
                if c = CHR ''.'' then map_option (\<lambda>t. (d @ ''.'', t)) (space_then_text rest)
                else None))"

text \<open>\<open>/^[-*+]\s+.+/\<close> and \<open>/^\d+\.\s+.+/\<close>, the tests of the dispatch, and
  \<open>/^\d+\.\s/\<close>, the test of the first line of a list.\<close>

definition unordered_start :: "string \<Rightarrow> bool" where
  "unordered_start s \<longleftrightarrow>
     (case s of [] \<Rightarrow> False | c # rest \<Rightarrow> c \<in> set ''-*+'' \<and> space_then_some rest)"

definition ordered_start :: "string \<Rightarrow> bool" where
  "ordered_start s \<longleftrightarrow>
     takeWhile is_digit s \<noteq> [] \<and>
     (case dropWhile is_digit s of
        [] \<Rightarrow> False
      | c # rest \<Rightarrow> c = CHR ''.'' \<and> space_then_some rest)"

definition ordered_prefix :: "string \<Rightarrow> bool" where
  "ordered_prefix s \<longleftrightarrow>
     takeWhile is_digit s \<noteq> [] \<and>
     (case dropWhile is_digit s of
        c # d # rest \<Rightarrow> c = CHR ''.'' \<and> is_whitespace d
      | _ \<Rightarrow> False)"

section \<open>Headers\<close>

definition parseHeader :: "string \<Rightarrow> token" where
  "parseHeader line =
     (case header_match line of
        None \<Rightarrow> paragraph_token line (parseInline line)
      | Some (n, None) \<Rightarrow> paragraph_token line (parseInline line)
      | Some (n, Some t) \<Rightarrow> header_token line t n (parseInline t))"

section \<open>Fenced code blocks\<close>

datatype error = Unclosed_code_block

text \<open>The loop that collects the lines up to the closing fence.\<close>

function codeBlock_loop :: "string list \<Rightarrow> string list \<Rightarrow> nat \<Rightarrow> string list \<times> nat" where
  "codeBlock_loop lines content i =
     (if i < length lines \<and> \<not> startsWith (lines ! i) ''```'' 0
      then codeBlock_loop lines (content @ [lines ! i]) (i + 1)
      else (content, i))"
  by pat_completeness auto
termination
  by (relation "measure (\<lambda>(lines, content, i). length lines - i)") auto

declare codeBlock_loop.simps [simp del]

definition parseCodeBlock :: "string list \<Rightarrow> nat \<Rightarrow> error + token \<times> nat" where
  "parseCodeBlock lines startIndex =
     (let lang = trim (slice_from (lines ! startIndex) 3);
          (content, i) = codeBlock_loop lines [] (startIndex + 1)
      in if i \<ge> length lines then Inl Unclosed_code_block
         else Inr (code_block_token (join newline (slice lines startIndex (i + 1)))
                     (join newline content) lang, i))"

section \<open>Block quotes: the scan\<close>

function blockquote_loop :: "string list \<Rightarrow> string list \<Rightarrow> nat \<Rightarrow> string list \<times> nat" where
  "blockquote_loop lines content i =
     (if i < length lines \<and> (startsWith (lines ! i) ''>'' 0 \<or> trim (lines ! i) = [])
      then blockquote_loop lines
             (if trim (lines ! i) \<noteq> [] then content @ [trim (slice_from (lines ! i) 1)]
              else content)
             (i + 1)
      else (content, i))"
  by pat_completeness auto
termination
  by (relation "measure (\<lambda>(lines, content, i). length lines - i)") auto

declare blockquote_loop.simps [simp del]

section \<open>Lists\<close>

text \<open>
  The list parser builds arrays of items and keeps references to them in two places: on its
  stack of open levels and in the \<open>items\<close> field of the item a level was opened under. The
  model has the store explicit: an array is named by its address, its position in
  \<open>arrays\<close>; address 0 is the root array \<open>items\<close>, and a new array takes the next free
  address. An item lives in exactly one array, so items are stored by value there. Every
  item the parser creates has \<open>raw\<close>, \<open>text\<close>, \<open>ordered\<close> and \<open>children\<close>;
  \<open>items\<close> is set when a level is opened under it.
\<close>

record list_item =
  item_raw :: string
  item_text :: string
  item_ordered :: bool
  item_children :: "token list"
  item_items :: "nat option"

record list_state =
  arrays :: "list_item list list"
  listStack :: "nat list"
  currentIndent :: int
  pos :: nat

text \<open>The stack is never empty (it starts with the root and the last level is not popped),
  so \<open>listStack[listStack.length - 1]\<close> is \<open>last\<close>.\<close>

definition indent_of :: "string \<Rightarrow> nat" where
  "indent_of line = length (takeWhile is_whitespace line)"

definition isValidListItem :: "bool \<Rightarrow> string \<Rightarrow> bool" where
  "isValidListItem isOrderedList line =
     (if isOrderedList then ordered_item (trim line) \<noteq> None
      else unordered_item (trim line) \<noteq> None)"

definition listItemMatch :: "bool \<Rightarrow> string \<Rightarrow> (string \<times> string) option" where
  "listItemMatch isOrderedList line =
     (if isOrderedList then ordered_item (trim line) else unordered_item (trim line))"

text \<open>A line that is no item, deeper than the tracked indentation and not blank: its
  trimmed text goes to the last item of the current level.\<close>

definition continuation :: "list_state \<Rightarrow> string \<Rightarrow> list_state" where
  "continuation st line =
     (let top = last (listStack st); currentList = arrays st ! top in
      if currentList \<noteq> [] then
        (let lastItem = last currentList in
         if item_text lastItem \<noteq> [] then
           st\<lparr>arrays := (arrays st)[top := butlast currentList @
                  [lastItem\<lparr>item_text := item_text lastItem @ newline @ trim line,
                            item_children := item_children lastItem
                               @ [inline_token Text (trim line) (trim line)]\<rparr>]]\<rparr>
         else st)
      else st)"

text \<open>\<open>indent > currentIndent\<close>: a new array, referred to by the last item of the
  current level when there is one, and pushed on the stack.\<close>

definition open_level :: "list_state \<Rightarrow> nat \<Rightarrow> list_state" where
  "open_level st indent =
     (let newList = length (arrays st);
          top = last (listStack st);
          parentList = arrays st ! top;
          attached =
            (if parentList \<noteq> [] then
               (arrays st)[top := butlast parentList
                  @ [(last parentList)\<lparr>item_items := Some newList\<rparr>]]
             else arrays st)
      in st\<lparr>arrays := attached @ [[]],
            listStack := listStack st @ [newList],
            currentIndent := int indent\<rparr>)"

text \<open>\<open>while (indent < currentIndent && listStack.length > 1)\<close>.\<close>

function pop_levels :: "nat \<Rightarrow> list_state \<Rightarrow> list_state" where
  "pop_levels indent st =
     (if int indent < currentIndent st \<and> length (listStack st) > 1
      then pop_levels indent
             (st\<lparr>listStack := butlast (listStack st), currentIndent := currentIndent st - 2\<rparr>)
      else st)"
  by pat_completeness auto
termination
  by (relation "measure (\<lambda>(indent, st). length (listStack st))") auto

declare pop_levels.simps [simp del]

definition adjust_levels :: "list_state \<Rightarrow> nat \<Rightarrow> list_state" where
  "adjust_levels st indent =
     (if int indent > currentIndent st then open_level st indent
      else if int indent < currentIndent st then pop_levels indent st
      else st)"

definition push_item :: "list_state \<Rightarrow> list_item \<Rightarrow> list_state" where
  "push_item st item =
     st\<lparr>arrays := (arrays st)[last (listStack st) :=
            arrays st ! last (listStack st) @ [item]]\<rparr>"

definition new_item :: "string \<Rightarrow> string \<Rightarrow> bool \<Rightarrow> list_item" where
  "new_item line content isOrderedList =
     \<lparr>item_raw = line, item_text = content, item_ordered = isOrderedList,
      item_children = parseInline content, item_items = None\<rparr>"

function parseList_loop :: "string list \<Rightarrow> bool \<Rightarrow> list_state \<Rightarrow> list_state" where
  "parseList_loop lines isOrderedList st =
     (if pos st < length lines then
        (if listItemMatch isOrderedList (lines ! pos st) = None
            \<or> \<not> isValidListItem isOrderedList (lines ! pos st) then
           (if int (indent_of (lines ! pos st)) > currentIndent st
               \<and> trim (lines ! pos st) \<noteq> [] then
              parseList_loop lines isOrderedList
                ((continuation st (lines ! pos st))\<lparr>pos := pos st + 1\<rparr>)
            else st)
         else
           parseList_loop lines isOrderedList
             ((push_item (adjust_levels st (indent_of (lines ! pos st)))
                 (new_item (lines ! pos st)
                    (snd (the (listItemMatch isOrderedList (lines ! pos st))))
                    isOrderedList))\<lparr>pos := pos st + 1\<rparr>))
      else st)"
  by pat_completeness auto
termination
  by (relation "measure (\<lambda>(lines, isOrderedList, st). length lines - pos st)") auto

declare parseList_loop.simps [simp del]

text \<open>
  Reading the arrays back as a tree of tokens. An item only refers to an array allocated
  after the array it lives in, so a chain of references is shorter than the number of
  arrays, which is the depth \<open>parseList\<close> reads with.
\<close>

fun list_items :: "nat \<Rightarrow> list_item list list \<Rightarrow> nat \<Rightarrow> token list" where
  "list_items 0 store a = []"
| "list_items (Suc n) store a =
     map (\<lambda>it. Token List_item (item_raw it) (Some (item_text it)) None
                 (map_option (list_items n store) (item_items it)) None None
                 (Some (item_children it)) (Some (item_ordered it)))
       (store ! a)"

definition parseList :: "string list \<Rightarrow> nat \<Rightarrow> token \<times> int" where
  "parseList lines startIndex =
     (let firstLine = trim (lines ! startIndex);
          isOrderedList = ordered_prefix firstLine;
          st = parseList_loop lines isOrderedList
                 \<lparr>arrays = [[]], listStack = [0], currentIndent = 0, pos = startIndex\<rparr>
      in (list_token (join newline (slice lines startIndex (pos st))) isOrderedList
            (list_items (length (arrays st)) (arrays st) 0),
          int (pos st) - 1))"

section \<open>The block tokenizer\<close>

text \<open>
  The loop of \<open>tokenize\<close> over the lines, from position \<open>i\<close> with the tokens pushed so
  far. A sub-parser sets \<open>i\<close> to its \<open>newIndex\<close> and the loop adds one. The list
  parser can give back \<open>startIndex - 1\<close>, and then the loop comes to the same line again
  and again: the loop need not end, so the function is partial and \<open>None\<close> is a run that
  does not return. The block quote calls \<open>tokenize\<close> on its collected text; that call is
  the inner \<open>tokenize_loop\<close> below, and \<open>parseBlockquote\<close> is defined from it afterwards.
  The only exception raised under the \<open>try\<close> of the loop is that of \<open>parseCodeBlock\<close>,
  and the \<open>catch\<close> pushes a paragraph with the escaped line as its text.
\<close>

definition error_paragraph :: "string \<Rightarrow> token" where
  "error_paragraph line =
     Token Paragraph line (Some (escapeHtml line)) None None None None None None"

definition is_list_line :: "string \<Rightarrow> bool" where
  "is_list_line line \<longleftrightarrow> unordered_start (trim line) \<or> ordered_start (trim line)"

partial_function (option)
  tokenize_loop :: "string list \<Rightarrow> nat \<Rightarrow> token list \<Rightarrow> token list option"
where
  "tokenize_loop lines i tokens =
     (if i < length lines then
        (if startsWith (lines ! i) ''#'' 0 then
           tokenize_loop lines (i + 1) (tokens @ [parseHeader (lines ! i)])
         else if startsWith (lines ! i) ''>'' 0 then
           Option.bind
             (tokenize_loop
                (split_lines (trim (join newline (fst (blockquote_loop lines [] i))))) 0 [])
             (\<lambda>children.
                tokenize_loop lines (snd (blockquote_loop lines [] i) - 1 + 1)
                  (tokens @ [blockquote_token
                     (join newline (slice lines i (snd (blockquote_loop lines [] i))))
                     children]))
         else if startsWith (lines ! i) ''```'' 0 then
           (case parseCodeBlock lines i of
              Inl error \<Rightarrow> tokenize_loop lines (i + 1) (tokens @ [error_paragraph (lines ! i)])
            | Inr codeBlock \<Rightarrow>
                tokenize_loop lines (snd codeBlock + 1) (tokens @ [fst codeBlock]))
         else if is_list_line (lines ! i) then
           tokenize_loop lines (nat (snd (parseList lines i) + 1))
             (tokens @ [fst (parseList lines i)])
         else if trim (lines ! i) \<noteq> [] then
           tokenize_loop lines (i + 1)
             (tokens @ [paragraph_token (lines ! i) (parseInline (lines ! i))])
         else tokenize_loop lines (i + 1) tokens)
      else Some tokens)"

declare tokenize_loop.simps [code]

definition tokenize :: "string \<Rightarrow> token list option" where
  "tokenize markdown = tokenize_loop (split_lines (trim markdown)) 0 []"

definition parseBlockquote :: "string list \<Rightarrow> nat \<Rightarrow> (token \<times> nat) option" where
  "parseBlockquote lines startIndex =
     (let (content, i) = blockquote_loop lines [] startIndex in
      map_option
        (\<lambda>children. (blockquote_token (join newline (slice lines startIndex i)) children, i - 1))
        (tokenize (join newline content)))"

section \<open>The syntax highlighter\<close>

text \<open>
  A rule holds a regular expression, kept as its source and its flags, and the name of its
  token class. The regular-expression engine is the platform's: \<open>regex_replace\<close> stands
  for \<open>subject.replace(new RegExp(source, flags), replacer)\<close> and is a parameter of the
  model.
\<close>

record syntax_rule =
  rule_pattern :: string
  rule_flags :: string
  rule_token :: string

record language_definition =
  lang_name :: string
  rules :: "syntax_rule list"

type_synonym regex_replace = "string \<Rightarrow> string \<Rightarrow> (string \<Rightarrow> string) \<Rightarrow> string \<Rightarrow> string"

definition javascript_rules :: "syntax_rule list" where
  "javascript_rules =
     [\<lparr>rule_pattern =
       [CHR 0x27] @ ''(?:[^'' @ [CHR 0x27] @ [CHR 0x5C] @ [CHR 0x5C] @ '']|'' @
       [CHR 0x5C] @ [CHR 0x5C] @ ''.)*'' @ [CHR 0x27] @ ''|'' @ [CHR 0x22] @
       ''(?:[^'' @ [CHR 0x22] @ [CHR 0x5C] @ [CHR 0x5C] @ '']|'' @ [CHR 0x5C] @
       [CHR 0x5C] @ ''.)*'' @ [CHR 0x22] @ ''|`(?:[^`'' @ [CHR 0x5C] @
       [CHR 0x5C] @ '']|'' @ [CHR 0x5C] @ [CHR 0x5C] @ ''.)*`'',
       rule_flags = ''g'', rule_token = ''string''\<rparr>,
      \<lparr>rule_pattern =
       [CHR 0x5C] @ ''/'' @ [CHR 0x5C] @ ''/.*$|'' @ [CHR 0x5C] @ ''/'' @
       [CHR 0x5C] @ ''*['' @ [CHR 0x5C] @ ''s'' @ [CHR 0x5C] @ ''S]*?'' @
       [CHR 0x5C] @ ''*'' @ [CHR 0x5C] @ ''/'',
       rule_flags = ''gm'', rule_token = ''comment''\<rparr>,
      \<lparr>rule_pattern =
       [CHR 0x5C] @
       ''b(function|class|extends|new|this|super|return|if|else|for|w'' @
       ''hile|do|switch|case|break|continue|try|catch|throw|async|awa'' @
       ''it|import|export|default|const|let|var)'' @ [CHR 0x5C] @ ''b'',
       rule_flags = ''g'', rule_token = ''keyword''\<rparr>,
      \<lparr>rule_pattern =
       [CHR 0x5C] @ ''b'' @ [CHR 0x5C] @ ''d+'' @ [CHR 0x5C] @ ''.?'' @
       [CHR 0x5C] @ ''d*'' @ [CHR 0x5C] @ ''b'',
       rule_flags = ''g'', rule_token = ''number''\<rparr>,
      \<lparr>rule_pattern =
       ''[{}['' @ [CHR 0x5C] @ '']();,.]'',
       rule_flags = ''g'', rule_token = ''punctuation''\<rparr>,
      \<lparr>rule_pattern =
       [CHR 0x5C] @ ''b[a-zA-Z_$][0-9a-zA-Z_$]*(?='' @ [CHR 0x5C] @ ''()'',
       rule_flags = ''g'', rule_token = ''function''\<rparr>,
      \<lparr>rule_pattern =
       [CHR 0x5C] @ ''b(true|false)'' @ [CHR 0x5C] @ ''b'',
       rule_flags = ''g'', rule_token = ''boolean''\<rparr>]"

definition registerLanguage ::
  "(string \<rightharpoonup> language_definition) \<Rightarrow> string \<Rightarrow> language_definition
     \<Rightarrow> (string \<rightharpoonup> language_definition)" where
  "registerLanguage languages name definition = languages(name \<mapsto> definition)"

text \<open>The registry after the constructor.\<close>

definition initial_languages :: "string \<rightharpoonup> language_definition" where
  "initial_languages =
     registerLanguage
       (registerLanguage Map.empty ''javascript''
          \<lparr>lang_name = ''javascript'', rules = javascript_rules\<rparr>)
       ''js'' \<lparr>lang_name = ''javascript'', rules = javascript_rules\<rparr>"

text \<open>
  \<open>isInsideString\<close> runs \<open>/('|"|`)(?:[^\\]|\\.)*?\1/g\<close> over the text. From an opening
  quote the lazy body ends at the first character equal to the quote; before it, a
  character other than a backslash is taken alone and a backslash with the next character,
  which must be no line terminator.
\<close>

fun quoted_end :: "char \<Rightarrow> string \<Rightarrow> nat \<Rightarrow> nat option" where
  "quoted_end q [] k = None"
| "quoted_end q [c] k = (if c = q then Some (k + 1) else None)"
| "quoted_end q (c # d # cs) k =
     (if c = q then Some (k + 1)
      else if c \<noteq> CHR 0x5C then quoted_end q (d # cs) (k + 1)
      else if is_line_terminator d then None
      else quoted_end q cs (k + 2))"

definition is_quote :: "char \<Rightarrow> bool" where
  "is_quote c \<longleftrightarrow> c = CHR 0x27 \<or> c = CHR 0x22 \<or> c = CHR 0x60"

lemma quoted_end_gt: "quoted_end q s k = Some e \<Longrightarrow> k < e"
  by (induction q s k rule: quoted_end.induct) (auto split: if_splits)

text \<open>The matches of the global expression from \<open>lastIndex\<close> on, each with its
  \<open>index\<close> and the \<open>lastIndex\<close> it leaves.\<close>

function string_spans :: "string \<Rightarrow> nat \<Rightarrow> (nat \<times> nat) list" where
  "string_spans text from =
     (if from < length text then
        (if is_quote (text ! from) then
           (case quoted_end (text ! from) (drop (from + 1) text) (from + 1) of
              Some e \<Rightarrow> (from, e) # string_spans text e
            | None \<Rightarrow> string_spans text (from + 1))
         else string_spans text (from + 1))
      else [])"
  by pat_completeness auto
termination
  by (relation "measure (\<lambda>(s, from). length s - from)") (auto dest!: quoted_end_gt)

declare string_spans.simps [simp del]

definition isInsideString :: "string \<Rightarrow> string \<Rightarrow> bool" where
  "isInsideString text char =
     (case indexOf text char 0 of
        None \<Rightarrow> False
      | Some at \<Rightarrow> list_ex (\<lambda>(index, lastIndex). index \<le> at \<and> lastIndex > at)
                    (string_spans text 0))"

definition escapeHtmlExceptStrings :: "string \<Rightarrow> string" where
  "escapeHtmlExceptStrings text =
     concat (map (\<lambda>c.
        if c = CHR 0x27 \<and> isInsideString text [c] then [c]
        else if c = CHR ''&'' then ''&amp;''
        else if c = CHR ''<'' then ''&lt;''
        else if c = CHR ''>'' then ''&gt;''
        else if c = CHR 0x22 then ''&quot;''
        else if c = CHR 0x27 then ''&#039;''
        else [c]) text)"

definition highlight ::
  "regex_replace \<Rightarrow> (string \<rightharpoonup> language_definition) \<Rightarrow> string \<Rightarrow> string \<Rightarrow> string" where
  "highlight replace languages code language_tag =
     (case languages language_tag of
        None \<Rightarrow> code
      | Some language \<Rightarrow>
          foldl (\<lambda>highlighted rule.
                   replace (''(?!<span[^>]*>)('' @ rule_pattern rule @ '')(?![^<]*</span>)'')
                     (rule_flags rule)
                     (\<lambda>match. ''<span class='' @ [CHR 0x22] @ ''token '' @ rule_token rule
                                 @ [CHR 0x22] @ ''>'' @ match @ ''</span>'')
                     highlighted)
            (escapeHtmlExceptStrings code) (rules language))"

section \<open>The platform's URL parser\<close>

text \<open>
  \<open>new URL(url)\<close> is the platform's; \<open>sanitizeUrl\<close> reads the \<open>protocol\<close> of the result
  and catches the exception. The renderer takes it as a parameter \<open>URL_protocol\<close>, the
  protocol or \<open>None\<close> when the constructor throws. An instance follows the URL Standard
  as far as the scheme: leading and trailing C0 controls and spaces are stripped, tabs and
  newlines removed, the scheme is a letter followed by letters, digits, \<open>+\<close>, \<open>-\<close> and
  \<open>.\<close> up to a colon, in lower case; with no base URL, an input without one fails. After
  the scheme only parsing a host can fail; an opaque path or a path alone cannot. Whether a
  host parses is left to the parameter \<open>host_ok\<close>.
\<close>

definition c0_control_or_space :: "char \<Rightarrow> bool" where
  "c0_control_or_space c \<longleftrightarrow> (of_char c :: nat) \<le> 0x20"

definition is_ascii_upper :: "char \<Rightarrow> bool" where
  "is_ascii_upper c \<longleftrightarrow> c \<in> set ''ABCDEFGHIJKLMNOPQRSTUVWXYZ''"

definition is_ascii_lower :: "char \<Rightarrow> bool" where
  "is_ascii_lower c \<longleftrightarrow> c \<in> set ''abcdefghijklmnopqrstuvwxyz''"

definition ascii_lowercase :: "char \<Rightarrow> char" where
  "ascii_lowercase c = (if is_ascii_upper c then char_of (of_char c + (32 :: nat)) else c)"

definition is_scheme_char :: "char \<Rightarrow> bool" where
  "is_scheme_char c \<longleftrightarrow>
     is_ascii_upper c \<or> is_ascii_lower c \<or> is_digit c \<or> c \<in> set ''+-.''"

definition scheme_of :: "string \<Rightarrow> (string \<times> string) option" where
  "scheme_of s =
     (case s of
        [] \<Rightarrow> None
      | c # cs \<Rightarrow>
          if is_ascii_upper c \<or> is_ascii_lower c then
            (case dropWhile is_scheme_char s of
               [] \<Rightarrow> None
             | d # rest \<Rightarrow>
                 if d = CHR '':'' then Some (map ascii_lowercase (takeWhile is_scheme_char s), rest)
                 else None)
          else None)"

definition is_slash :: "char \<Rightarrow> bool" where
  "is_slash c \<longleftrightarrow> c = CHR ''/'' \<or> c = CHR 0x5C"

text \<open>Whether the parser comes to a host: always for the special schemes other than
  \<open>file\<close>, after two slashes (of either kind) for \<open>file\<close>, after \<open>//\<close> otherwise.\<close>

definition reaches_host :: "string \<Rightarrow> string \<Rightarrow> bool" where
  "reaches_host scheme rest \<longleftrightarrow>
     (if scheme = ''file'' then
        (case rest of c # d # _ \<Rightarrow> is_slash c \<and> is_slash d | _ \<Rightarrow> False)
      else if scheme \<in> set [''ftp'', ''http'', ''https'', ''ws'', ''wss''] then True
      else startsWith rest ''//'' 0)"

definition standard_URL_protocol :: "(string \<Rightarrow> string \<Rightarrow> bool) \<Rightarrow> string \<Rightarrow> string option" where
  "standard_URL_protocol host_ok input =
     (let stripped = rev (dropWhile c0_control_or_space
                       (rev (dropWhile c0_control_or_space input)));
          s = filter (\<lambda>c. c \<noteq> CHR 0x09 \<and> c \<noteq> CHR 0x0A \<and> c \<noteq> CHR 0x0D) stripped
      in case scheme_of s of
           None \<Rightarrow> None
         | Some (scheme, rest) \<Rightarrow>
             if reaches_host scheme rest \<and> \<not> host_ok scheme rest then None
             else Some (scheme @ '':''))"

section \<open>The renderer\<close>

record parser_options =
  gfm :: bool
  breaks :: bool
  headerIds :: bool
  sanitize :: bool

definition default_options :: parser_options where
  "default_options = \<lparr>gfm = True, breaks = False, headerIds = True, sanitize = True\<rparr>"

text \<open>What the renderer reads of \<open>this\<close> and of the platform.\<close>

record markyfy =
  options :: parser_options
  languages :: "string \<rightharpoonup> language_definition"
  URL_protocol :: "string \<Rightarrow> string option"
  replace :: regex_replace

definition sanitizeUrl :: "(string \<Rightarrow> string option) \<Rightarrow> string \<Rightarrow> string" where
  "sanitizeUrl URL u =
     (case URL u of
        Some protocol \<Rightarrow> if protocol = ''javascript:'' then [] else u
      | None \<Rightarrow> u)"

text \<open>\<open>toLowerCase\<close> on code units below 256: the ASCII capitals and the capitals of
  Latin-1 (\<open>0xC0\<close> to \<open>0xDE\<close> without the multiplication sign).\<close>

definition toLowerCase :: "char \<Rightarrow> char" where
  "toLowerCase c =
     (let n = (of_char c :: nat) in
      if (65 \<le> n \<and> n \<le> 90) \<or> (192 \<le> n \<and> n \<le> 222 \<and> n \<noteq> 215) then char_of (n + 32)
      else c)"

text \<open>\<open>s.replace(/P+/g, r)\<close> for a character class \<open>P\<close>.\<close>

function replace_runs :: "(char \<Rightarrow> bool) \<Rightarrow> string \<Rightarrow> string \<Rightarrow> string" where
  "replace_runs P r [] = []"
| "replace_runs P r (c # cs) =
     (if P c then r @ replace_runs P r (dropWhile P cs) else c # replace_runs P r cs)"
  by pat_completeness auto
termination
  by (relation "measure (\<lambda>(P, r, s). length s)") (auto simp: length_dropWhile_le less_Suc_eq_le)

definition slugify :: "string \<Rightarrow> string" where
  "slugify text =
     replace_runs (\<lambda>c. c = CHR ''-'') ''-''
       (replace_runs is_whitespace ''-''
          (filter (\<lambda>c. is_ascii_lower c \<or> is_digit c \<or> c = CHR '' '' \<or> c = CHR ''-'')
             (map toLowerCase text)))"

text \<open>A number in a template literal.\<close>

fun string_of_nat :: "nat \<Rightarrow> string" where
  "string_of_nat n =
     (if n < 10 then [char_of (48 + n)]
      else string_of_nat (n div 10) @ [char_of (48 + n mod 10)])"

declare string_of_nat.simps [simp del]

text \<open>The fixed text of the two block templates.\<close>

definition code_block_open :: string where
  "code_block_open =
     newline @ ''            <pre>'' @ newline @
     ''              <code class='' @ [CHR 0x22] @ ''language-''"

definition code_block_close :: string where
  "code_block_close =
     ''</code>'' @ newline @ ''            </pre>'' @ newline @
     ''            <style>'' @ newline @ ''              pre {'' @ newline @
     ''                display: flex;'' @ newline @
     ''                flex-direction: column;'' @ newline @
     ''                justify-content: center;'' @ newline @
     ''                background: #282c34;'' @ newline @
     ''                color: #abb2bf;'' @ newline @
     ''                padding: 1rem;'' @ newline @
     ''                border-radius: 5px;'' @ newline @
     ''                overflow-x: auto;'' @ newline @ newline @
     ''                code {'' @ newline @
     ''                  font-family: '' @ [CHR 0x22] @ ''Fira Code'' @
     [CHR 0x22] @ '', monospace;'' @ newline @
     ''                  font-size: 14px;'' @ newline @
     ''                  background: initial;'' @ newline @
     ''                  color: white;'' @ newline @
     ''                  line-height: 1.5;'' @ newline @ ''                }'' @
     newline @ ''              }'' @ newline @
     ''              .token.keyword { color: #c678dd; }'' @ newline @
     ''              .token.function { color: #61afef; }'' @ newline @
     ''              .token.string { color: #ce9178; }'' @ newline @
     ''              .token.comment { color: #7c858d; }'' @ newline @
     ''              .token.number { color: #b5cea8; }'' @ newline @
     ''              .token.boolean { color: #569cd6; }'' @ newline @
     ''              .token.type { color: #4ec9b0; }'' @ newline @
     ''              .token.class { color: #4ec9b0; }'' @ newline @
     ''              .token.punctuation { color: #abb2bf; } '' @ newline @
     ''            </style>'' @ newline @ ''          ''"

definition list_open :: string where
  "list_open =
     newline @ ''              <''"

definition list_close :: string where
  "list_close =
     newline @ ''              <style>'' @ newline @ ''                ul {'' @
     newline @ ''                  list-style-type: disc;'' @ newline @
     ''                  padding-left: 20px;'' @ newline @
     ''                  display: block;'' @ newline @
     ''                  margin-block-start: 1em;'' @ newline @
     ''                  margin-block-end: 1em;'' @ newline @
     ''                  margin-inline-start: 0px;'' @ newline @
     ''                  margin-inline-end: 0px;'' @ newline @
     ''                  padding-inline-start: 40px;'' @ newline @
     ''                  unicode-bidi: isolate;'' @ newline @
     ''                }'' @ newline @ ''                '' @ newline @
     ''                ol {'' @ newline @
     ''                  list-style-type: decimal;'' @ newline @
     ''                  padding-left: 20px;'' @ newline @
     ''                  display: block;'' @ newline @
     ''                  margin-block-start: 1em;'' @ newline @
     ''                  margin-block-end: 1em;'' @ newline @
     ''                  margin-inline-start: 0px;'' @ newline @
     ''                  margin-inline-end: 0px;'' @ newline @
     ''                  padding-inline-start: 40px;'' @ newline @
     ''                  unicode-bidi: isolate;'' @ newline @
     ''                }'' @ newline @ newline @ ''                ul ul {'' @
     newline @ ''                  list-style-type: circle;'' @ newline @
     ''                }'' @ newline @ ''                '' @ newline @
     ''                ul ul ul {'' @ newline @
     ''                  list-style-type: square;'' @ newline @
     ''                }'' @ newline @ ''                '' @ newline @
     ''                ol ol {'' @ newline @
     ''                  list-style-type: lower-alpha;'' @ newline @
     ''                }'' @ newline @ ''                '' @ newline @
     ''                ol ol ol {'' @ newline @
     ''                  list-style-type: lower-roman;'' @ newline @
     ''                }'' @ newline @ ''              </>'' @ newline @
     ''            ''"

text \<open>\<open>x || ""\<close> on an optional string and \<open>x || []\<close> on an optional array.\<close>

definition or_empty :: "'a list option \<Rightarrow> 'a list" where
  "or_empty x = (case x of None \<Rightarrow> [] | Some s \<Rightarrow> s)"

lemma size_or_empty: "size_list f (or_empty x) \<le> size_option (size_list f) x"
  by (cases x) (simp_all add: or_empty_def)

lemma size_children: "size_option (size_list size) (children t) < size t"
  by (cases t) simp

lemma size_items: "size_option (size_list size) (items t) < size t"
  by (cases t) simp

lemma size_mem: "x \<in> set xs \<Longrightarrow> size x < size_list size xs"
  by (induction xs) auto

lemma size_children_or: "size_list size (or_empty (children t)) < size t"
  using size_or_empty [of size "children t"] size_children [of t] by simp

lemma size_items_or: "size_list size (or_empty (items t)) < size t"
  using size_or_empty [of size "items t"] size_items [of t] by simp

lemma size_items_Some: "items t = Some xs \<Longrightarrow> size_list size xs < size t"
  using size_items [of t] by simp

text \<open>
  \<open>tokensToHtml\<close> with its callback \<open>token_html\<close>, \<open>renderChildren\<close>, and the local
  \<open>renderListItems\<close> with its callback \<open>item_html\<close>.
\<close>

function tokensToHtml :: "markyfy \<Rightarrow> token list \<Rightarrow> string"
  and token_html :: "markyfy \<Rightarrow> token \<Rightarrow> string"
  and renderChildren :: "markyfy \<Rightarrow> token list option \<Rightarrow> string"
  and renderListItems :: "markyfy \<Rightarrow> token list \<Rightarrow> string"
  and item_html :: "markyfy \<Rightarrow> token \<Rightarrow> string"
where
  "tokensToHtml this tokens = join newline (map (token_html this) tokens)"
| "token_html this token =
     (case type token of
        Header \<Rightarrow>
          ''<h'' @ (case depth token of None \<Rightarrow> ''undefined'' | Some d \<Rightarrow> string_of_nat d)
          @ (if headerIds (options this)
             then '' id='' @ [CHR 0x22] @ slugify (or_empty (token_text token)) @ [CHR 0x22]
             else [])
          @ ''>'' @ renderChildren this (children token)
          @ ''</h'' @ (case depth token of None \<Rightarrow> ''undefined'' | Some d \<Rightarrow> string_of_nat d)
          @ ''>''
      | Code_block \<Rightarrow>
          code_block_open @ or_empty (lang token) @ [CHR 0x22] @ ''>''
          @ highlight (replace this) (languages this) (or_empty (token_text token))
              (or_empty (lang token))
          @ code_block_close
      | Paragraph \<Rightarrow> ''<p>'' @ renderChildren this (children token) @ ''</p>''
      | Blockquote \<Rightarrow>
          ''<blockquote>'' @ tokensToHtml this (or_empty (children token)) @ ''</blockquote>''
      | List \<Rightarrow>
          list_open @ (if ordered token = Some True then ''ol'' else ''ul'') @ ''>'' @ newline
          @ renderListItems this (or_empty (items token)) @ newline
          @ ''</'' @ (if ordered token = Some True then ''ol'' else ''ul'') @ ''>''
          @ list_close
      | Bold \<Rightarrow> ''<strong>'' @ escapeHtml (or_empty (token_text token)) @ ''</strong>''
      | Italic \<Rightarrow> ''<em>'' @ escapeHtml (or_empty (token_text token)) @ ''</em>''
      | Code \<Rightarrow> ''<code>'' @ escapeHtml (or_empty (token_text token)) @ ''</code>''
      | Link \<Rightarrow>
          ''<a href='' @ [CHR 0x22]
          @ (if sanitize (options this)
             then sanitizeUrl (URL_protocol this) (or_empty (url token))
             else (case url token of None \<Rightarrow> ''undefined'' | Some u \<Rightarrow> u))
          @ [CHR 0x22] @ ''>'' @ escapeHtml (or_empty (token_text token)) @ ''</a>''
      | List_item \<Rightarrow> escapeHtml (or_empty (token_text token))
      | Text \<Rightarrow> escapeHtml (or_empty (token_text token)))"
| "renderChildren this cs =
     (case cs of
        None \<Rightarrow> []
      | Some present \<Rightarrow> concat (map (\<lambda>child. tokensToHtml this [child]) present))"
| "renderListItems this its = join newline (map (item_html this) its)"
| "item_html this item =
     ''<li>'' @ renderChildren this (children item)
     @ (case items item of
          Some nested \<Rightarrow> newline @ renderListItems this nested @ newline
        | None \<Rightarrow> [])
     @ ''</li>''"
  by pat_completeness auto
termination
  by (relation "measure (\<lambda>x. case x of
       Inl (Inl (this, tokens)) \<Rightarrow> size_list size tokens
     | Inl (Inr (this, token)) \<Rightarrow> size token
     | Inr (Inl (this, cs)) \<Rightarrow> size_option (size_list size) cs
     | Inr (Inr (Inl (this, its))) \<Rightarrow> size_list size its
     | Inr (Inr (Inr (this, item))) \<Rightarrow> size item)")
    (auto simp: size_mem size_children size_items size_children_or size_items_or size_items_Some)

declare tokensToHtml.simps [simp del] token_html.simps [simp del] renderChildren.simps [simp del]
  renderListItems.simps [simp del] item_html.simps [simp del]

section \<open>The entry point\<close>

text \<open>
  The body of the \<open>try\<close> of \<open>parse\<close> ends in the rendered text or in an exception, and
  \<open>catch_parse\<close> is the \<open>try\<close>/\<open>catch\<close> around it. No exception of the model leaves
  \<open>tokenize\<close>, whose loop catches the one that is raised, and the renderer raises none;
  the errors the runtime itself raises when the stack or the heap is exhausted are outside
  the model. \<open>None\<close> is a run whose tokenizer does not return.
\<close>

definition pipeline :: "markyfy \<Rightarrow> string \<Rightarrow> (error + string) option" where
  "pipeline this markdown =
     map_option (\<lambda>tokens. Inr (tokensToHtml this tokens)) (tokenize markdown)"

definition catch_parse :: "error + string \<Rightarrow> string \<Rightarrow> string" where
  "catch_parse outcome markdown =
     (case outcome of Inr html \<Rightarrow> html | Inl error \<Rightarrow> escapeHtml markdown)"

definition parse :: "markyfy \<Rightarrow> string \<Rightarrow> string option" where
  "parse this markdown = map_option (\<lambda>outcome. catch_parse outcome markdown) (pipeline this markdown)"

text \<open>\<open>new Markyfy(options)\<close> on a platform.\<close>

definition new_Markyfy ::
  "parser_options \<Rightarrow> (string \<Rightarrow> string option) \<Rightarrow> regex_replace \<Rightarrow> markyfy" where
  "new_Markyfy opts URL rx =
     \<lparr>options = opts, languages = initial_languages, URL_protocol = URL, replace = rx\<rparr>"

section \<open>The specification's reading of a quoted line\<close>

text \<open>The specification's words for what a block quote keeps of a line: the leading
  \<open>>\<close> and one following space are removed, nothing else.\<close>

definition spec_quote_content :: "string \<Rightarrow> string" where
  "spec_quote_content line =
     (let r = (if startsWith line ''>'' 0 then drop 1 line else line)
      in if startsWith r '' '' 0 then drop 1 r else r)"

section \<open>The invariant of the list parser's store\<close>

text \<open>
  What holds of every state of the list scan: the stack is not empty and holds addresses
  of the store, and an item refers only to an array allocated after the one it lives in.
\<close>

definition stack_valid :: "list_state \<Rightarrow> bool" where
  "stack_valid st \<longleftrightarrow>
     listStack st \<noteq> [] \<and> list_all (\<lambda>a. a < length (arrays st)) (listStack st)"

definition refers_forward :: "nat \<Rightarrow> nat \<Rightarrow> list_item \<Rightarrow> bool" where
  "refers_forward n a it \<longleftrightarrow>
     (case item_items it of None \<Rightarrow> True | Some b \<Rightarrow> a < b \<and> b < n)"

definition pointers_forward :: "list_item list list \<Rightarrow> bool" where
  "pointers_forward store \<longleftrightarrow>
     list_all (\<lambda>a. list_all (refers_forward (length store) a) (store ! a)) [0 ..< length store]"

definition list_inv :: "list_state \<Rightarrow> bool" where
  "list_inv st \<longleftrightarrow> stack_valid st \<and> pointers_forward (arrays st)"

section \<open>The loop of the tokenizer in terms of the block quote parser\<close>

text \<open>At a line that starts a block quote, the loop pushes the token of
  \<open>parseBlockquote\<close> and goes on after its \<open>newIndex\<close>.\<close>

lemma tokenize_loop_blockquote:
  assumes "i < length lines" "\<not> startsWith (lines ! i) ''#'' 0" "startsWith (lines ! i) ''>'' 0"
  shows "tokenize_loop lines i tokens
           = Option.bind (parseBlockquote lines i)
               (\<lambda>blockquote. tokenize_loop lines (snd blockquote + 1) (tokens @ [fst blockquote]))"
proof (cases "blockquote_loop lines [] i")
  case (Pair content j)
  show ?thesis
  proof (cases "tokenize (join newline content)")
    case None
    with Pair assms show ?thesis
      by (subst tokenize_loop.simps) (simp add: parseBlockquote_def tokenize_def)
  next
    case (Some children)
    with Pair assms show ?thesis
      by (subst tokenize_loop.simps) (simp add: parseBlockquote_def tokenize_def)
  qed
qed

section \<open>The list parser keeps its invariant\<close>

lemma pointers_forward_iff:
  "pointers_forward store \<longleftrightarrow>
     (\<forall>a < length store. \<forall>it \<in> set (store ! a). refers_forward (length store) a it)"
  by (auto simp: pointers_forward_def list_all_iff)

lemma stack_valid_top: "stack_valid st \<Longrightarrow> last (listStack st) < length (arrays st)"
  by (auto simp: stack_valid_def list_all_iff)

lemma list_inv_initial:
  "list_inv \<lparr>arrays = [[]], listStack = [0], currentIndent = 0, pos = p\<rparr>"
  by (simp add: list_inv_def stack_valid_def pointers_forward_iff)

lemma list_inv_pos: "list_inv (st\<lparr>pos := p\<rparr>) = list_inv st"
  by (simp add: list_inv_def stack_valid_def)

lemma refers_forward_mono: "refers_forward n a it \<Longrightarrow> n \<le> m \<Longrightarrow> refers_forward m a it"
  by (auto simp: refers_forward_def split: option.splits)

lemma pointers_forward_update:
  assumes "pointers_forward store" "a0 < length store"
    and "\<forall>it \<in> set xs. refers_forward (length store) a0 it"
  shows "pointers_forward (store[a0 := xs])"
  using assms by (auto simp: pointers_forward_iff nth_list_update)

lemma list_inv_continuation: "list_inv st \<Longrightarrow> list_inv (continuation st line)"
proof -
  assume inv: "list_inv st"
  let ?top = "last (listStack st)"
  let ?cur = "arrays st ! ?top"
  from inv have top: "?top < length (arrays st)"
    by (simp add: list_inv_def stack_valid_top)
  from inv have pf: "pointers_forward (arrays st)" by (simp add: list_inv_def)
  show ?thesis
  proof (cases "?cur \<noteq> [] \<and> item_text (last ?cur) \<noteq> []")
    case False
    with inv show ?thesis by (auto simp: continuation_def Let_def)
  next
    case True
    let ?it = "(last ?cur)\<lparr>item_text := item_text (last ?cur) @ newline @ trim line,
                 item_children := item_children (last ?cur)
                    @ [inline_token Text (trim line) (trim line)]\<rparr>"
    from pf top have old: "\<forall>it \<in> set ?cur. refers_forward (length (arrays st)) ?top it"
      by (simp add: pointers_forward_iff)
    with True have "refers_forward (length (arrays st)) ?top (last ?cur)" by simp
    then have "refers_forward (length (arrays st)) ?top ?it"
      by (simp add: refers_forward_def)
    with old have "\<forall>it \<in> set (butlast ?cur @ [?it]). refers_forward (length (arrays st)) ?top it"
      by (auto dest: in_set_butlastD)
    from pointers_forward_update [OF pf top this] inv True show ?thesis
      by (simp add: continuation_def Let_def list_inv_def stack_valid_def)
  qed
qed

lemma list_inv_open_level: "list_inv st \<Longrightarrow> list_inv (open_level st indent)"
proof -
  assume inv: "list_inv st"
  let ?n = "length (arrays st)"
  let ?top = "last (listStack st)"
  let ?par = "arrays st ! ?top"
  let ?att = "if ?par \<noteq> [] then (arrays st)[?top := butlast ?par
                  @ [(last ?par)\<lparr>item_items := Some ?n\<rparr>]] else arrays st"
  from inv have top: "?top < ?n" by (simp add: list_inv_def stack_valid_top)
  from inv have pf: "pointers_forward (arrays st)" by (simp add: list_inv_def)
  from inv have sv: "stack_valid st" by (simp add: list_inv_def)
  have len: "length ?att = ?n" by simp
  have att: "\<forall>a < ?n. \<forall>it \<in> set (?att ! a). refers_forward (Suc ?n) a it"
  proof (intro allI impI ballI)
    fix a it assume a: "a < ?n" and it: "it \<in> set (?att ! a)"
    show "refers_forward (Suc ?n) a it"
    proof (cases "?par \<noteq> [] \<and> a = ?top")
      case False
      with it a have "it \<in> set (arrays st ! a)" by (auto simp: nth_list_update split: if_splits)
      with pf a have "refers_forward ?n a it" by (simp add: pointers_forward_iff)
      then show ?thesis by (rule refers_forward_mono) simp
    next
      case True
      with it top have "it \<in> set (butlast ?par) \<or> it = (last ?par)\<lparr>item_items := Some ?n\<rparr>"
        by auto
      then show ?thesis
      proof
        assume "it \<in> set (butlast ?par)"
        then have "it \<in> set ?par" by (rule in_set_butlastD)
        with pf top have "refers_forward ?n ?top it" by (simp add: pointers_forward_iff)
        with True show ?thesis by (auto intro: refers_forward_mono)
      next
        assume "it = (last ?par)\<lparr>item_items := Some ?n\<rparr>"
        with True top show ?thesis by (simp add: refers_forward_def)
      qed
    qed
  qed
  have "pointers_forward (?att @ [[]])"
    unfolding pointers_forward_iff using att len
    by (auto simp: nth_append less_Suc_eq)
  moreover from sv have "stack_valid (open_level st indent)"
    by (auto simp: stack_valid_def open_level_def Let_def list_all_iff)
  ultimately show ?thesis
    by (simp add: list_inv_def open_level_def Let_def)
qed

lemma list_inv_pop_levels: "list_inv st \<Longrightarrow> list_inv (pop_levels indent st)"
proof (induction indent st rule: pop_levels.induct)
  case (1 indent st)
  show ?case
  proof (cases "int indent < currentIndent st \<and> length (listStack st) > 1")
    case False
    then have "pop_levels indent st = st" by (subst pop_levels.simps) auto
    with "1.prems" show ?thesis by simp
  next
    case True
    let ?st = "st\<lparr>listStack := butlast (listStack st), currentIndent := currentIndent st - 2\<rparr>"
    from True have ne: "butlast (listStack st) \<noteq> []"
      by (cases "listStack st" rule: rev_cases) auto
    from "1.prems" ne have "list_inv ?st"
      by (auto simp: list_inv_def stack_valid_def list_all_iff dest: in_set_butlastD)
    from "1.IH" [OF True this] True show ?thesis by (subst pop_levels.simps) simp
  qed
qed

lemma list_inv_adjust_levels: "list_inv st \<Longrightarrow> list_inv (adjust_levels st indent)"
  by (simp add: adjust_levels_def list_inv_open_level list_inv_pop_levels)

lemma list_inv_push_item:
  "list_inv st \<Longrightarrow> item_items item = None \<Longrightarrow> list_inv (push_item st item)"
proof -
  assume inv: "list_inv st" and none: "item_items item = None"
  let ?top = "last (listStack st)"
  from inv have top: "?top < length (arrays st)" by (simp add: list_inv_def stack_valid_top)
  from inv have pf: "pointers_forward (arrays st)" by (simp add: list_inv_def)
  from pf top none
  have "\<forall>it \<in> set (arrays st ! ?top @ [item]). refers_forward (length (arrays st)) ?top it"
    by (auto simp: pointers_forward_iff refers_forward_def)
  from pointers_forward_update [OF pf top this] inv show ?thesis
    by (simp add: push_item_def list_inv_def stack_valid_def)
qed

lemma list_inv_parseList_loop:
  "list_inv st \<Longrightarrow> list_inv (parseList_loop lines isOrderedList st)"
proof (induction lines isOrderedList st rule: parseList_loop.induct)
  case (1 lines isOrderedList st)
  let ?line = "lines ! pos st"
  show ?case
  proof (cases "pos st < length lines")
    case False
    then have "parseList_loop lines isOrderedList st = st"
      by (subst parseList_loop.simps) simp
    with "1.prems" show ?thesis by simp
  next
    case lt: True
    show ?thesis
    proof (cases "listItemMatch isOrderedList ?line = None
                    \<or> \<not> isValidListItem isOrderedList ?line")
      case noitem: True
      show ?thesis
      proof (cases "int (indent_of ?line) > currentIndent st \<and> trim ?line \<noteq> []")
        case True
        have "list_inv ((continuation st ?line)\<lparr>pos := pos st + 1\<rparr>)"
          using "1.prems" by (simp add: list_inv_pos list_inv_continuation)
        from "1.IH"(1) [OF lt noitem True this] lt noitem True show ?thesis
          by (subst parseList_loop.simps) simp
      next
        case False
        with lt noitem have "parseList_loop lines isOrderedList st = st"
          by (subst parseList_loop.simps) auto
        with "1.prems" show ?thesis by simp
      qed
    next
      case item: False
      let ?item = "new_item ?line (snd (the (listItemMatch isOrderedList ?line))) isOrderedList"
      have "item_items ?item = None" by (simp add: new_item_def)
      with "1.prems"
      have "list_inv ((push_item (adjust_levels st (indent_of ?line)) ?item)\<lparr>pos := pos st + 1\<rparr>)"
        by (simp add: list_inv_pos list_inv_push_item list_inv_adjust_levels)
      moreover have "parseList_loop lines isOrderedList st
          = parseList_loop lines isOrderedList
              ((push_item (adjust_levels st (indent_of ?line)) ?item)\<lparr>pos := pos st + 1\<rparr>)"
        by (subst parseList_loop.simps, subst if_P [OF lt], subst if_not_P [OF item], rule refl)
      ultimately show ?thesis using "1.IH"(2) [OF lt item] by simp
    qed
  qed
qed

text \<open>With references going forward, reading the store from an address to any depth that
  covers the arrays after it gives the same tree: the depth \<open>parseList\<close> reads with is
  enough.\<close>

lemma list_items_enough:
  "pointers_forward store \<Longrightarrow> a < length store \<Longrightarrow>
   length store - a \<le> n \<Longrightarrow> length store - a \<le> m \<Longrightarrow>
   list_items n store a = list_items m store a"
proof (induction n arbitrary: a m)
  case 0
  then show ?case by simp
next
  case (Suc n)
  from Suc.prems obtain m' where m: "m = Suc m'" by (cases m) auto
  have "map_option (list_items n store) (item_items it)
          = map_option (list_items m' store) (item_items it)"
    if it: "it \<in> set (store ! a)" for it
  proof (cases "item_items it")
    case None
    then show ?thesis by simp
  next
    case (Some b)
    from Suc.prems(1,2) it have "refers_forward (length store) a it"
      by (simp add: pointers_forward_iff)
    with Some have b: "a < b" "b < length store" by (simp_all add: refers_forward_def)
    with Suc.prems m have "length store - b \<le> n" "length store - b \<le> m'" by auto
    from Suc.IH [OF Suc.prems(1) b(2) this] Some show ?thesis by simp
  qed
  then show ?case unfolding m by simp
qed

lemma parseList_depth_enough:
  assumes "st = parseList_loop lines isOrderedList
                  \<lparr>arrays = [[]], listStack = [0], currentIndent = 0, pos = p\<rparr>"
    and "length (arrays st) \<le> n"
  shows "list_items n (arrays st) 0 = list_items (length (arrays st)) (arrays st) 0"
proof -
  have inv: "list_inv st"
    unfolding assms(1) by (intro list_inv_parseList_loop list_inv_initial)
  then have "last (listStack st) < length (arrays st)"
    by (simp add: list_inv_def stack_valid_top)
  then have "0 < length (arrays st)" by (cases "arrays st") simp_all
  with inv assms(2) show ?thesis
    by (intro list_items_enough) (simp_all add: list_inv_def)
qed

section \<open>Properties of the inline tokenizer\<close>

lemma concat_raw_flush:
  "concat (map raw (flush tokens current)) = concat (map raw tokens) @ current"
  by (simp add: flush_def inline_token_def)

lemma take_slice: "i \<le> j \<Longrightarrow> take i s @ slice s i j = take j s"
  unfolding slice_def
  by (metis le_add_diff_inverse take_add)

lemma indexOf_scan_bound:
  "indexOf_scan s p k = Some e \<Longrightarrow> p \<noteq> [] \<Longrightarrow> e + length p \<le> k + length s"
proof (induction s arbitrary: k)
  case Nil
  then show ?case by simp
next
  case (Cons c cs)
  show ?case
  proof (cases "take (length p) (c # cs) = p")
    case True
    have "length (take (length p) (c # cs)) \<le> length (c # cs)" by simp
    with True have "length p \<le> length (c # cs)" by simp
    with True Cons.prems show ?thesis by simp
  next
    case False
    with Cons.prems have "indexOf_scan cs p (Suc k) = Some e" by simp
    from Cons.IH[OF this Cons.prems(2)] show ?thesis by simp
  qed
qed

lemma indexOf_bound:
  "indexOf s p from = Some e \<Longrightarrow> p \<noteq> [] \<Longrightarrow> from \<le> length s \<Longrightarrow> e + length p \<le> length s"
  unfolding indexOf_def by (drule indexOf_scan_bound) auto

lemma bold_end_le: "bold_end s i = Some e \<Longrightarrow> e + 2 \<le> length s"
proof -
  assume a: "bold_end s i = Some e"
  then have sw: "startsWith s ''**'' i \<or> startsWith s ''__'' i"
    and ix: "indexOf s (take 2 (drop i s)) (i + 2) = Some e"
    unfolding bold_end_def by (auto split: if_splits)
  from sw have len: "i + 2 \<le> length s"
    using startsWith_length [of "''**''" _ i] startsWith_length [of "''__''" _ i] by auto
  from sw have m: "take 2 (drop i s) = ''**'' \<or> take 2 (drop i s) = ''__''"
    unfolding startsWith_def by (auto simp: numeral_2_eq_2)
  from len have "take 2 (drop i s) \<noteq> []" and "length (take 2 (drop i s)) = 2" by auto
  with indexOf_bound [OF ix _ len] show ?thesis by simp
qed

lemma italic_end_le: "italic_end s i = Some e \<Longrightarrow> e + 1 \<le> length s"
  unfolding italic_end_def char_at_def
  by (auto split: if_splits dest!: indexOf_bound)

lemma code_end_le: "code_end s i = Some e \<Longrightarrow> e + 1 \<le> length s"
  unfolding code_end_def char_at_def
  by (auto split: if_splits dest!: indexOf_bound)

lemma link_ends_le: "link_ends s i = Some (t, u) \<Longrightarrow> u + 1 \<le> length s"
  unfolding link_ends_def char_at_def
  by (auto split: if_splits option.splits dest!: indexOf_bound)

lemma parseInline_loop_raw:
  "i \<le> length s \<Longrightarrow> concat (map raw tokens) @ current = take i s \<Longrightarrow>
   concat (map raw (parseInline_loop s tokens current i)) = s"
proof (induction s tokens current i rule: parseInline_loop.induct)
  case (1 s tokens current i)
  note inv = "1.prems"(2)
  show ?case
  proof (cases "i < length s")
    case False
    with "1.prems" have "i = length s" by simp
    with inv False show ?thesis
      by (subst parseInline_loop.simps) (simp add: concat_raw_flush)
  next
    case lt: True
    show ?thesis
    proof (cases "bold_end s i")
      case (Some e)
      from bold_end_ge [OF Some] bold_end_le [OF Some]
      have b: "i \<le> e + 2" "e + 2 \<le> length s" by auto
      have "concat (map raw (flush tokens current
              @ [inline_token Bold (slice s i (e + 2)) (slice s (i + 2) e)])) @ []
            = take (e + 2) s"
        using inv take_slice [OF b(1), of s] by (simp add: concat_raw_flush inline_token_def)
      from "1.IH"(5) [OF lt Some b(2) this] lt Some show ?thesis
              by (subst parseInline_loop.simps) simp
    next
      case nb: None
      show ?thesis
      proof (cases "italic_end s i")
        case (Some e)
        from italic_end_ge [OF Some] italic_end_le [OF Some]
        have b: "i \<le> e + 1" "e + 1 \<le> length s" by auto
        have "concat (map raw (flush tokens current
                @ [inline_token Italic (slice s i (e + 1)) (slice s (i + 1) e)])) @ []
              = take (e + 1) s"
          using inv take_slice [OF b(1), of s] by (simp add: concat_raw_flush inline_token_def)
        from "1.IH"(4) [OF lt nb Some b(2) this] lt nb Some show ?thesis
              by (subst parseInline_loop.simps) simp
      next
        case ni: None
        show ?thesis
        proof (cases "code_end s i")
          case (Some e)
          from code_end_ge [OF Some] code_end_le [OF Some]
          have b: "i \<le> e + 1" "e + 1 \<le> length s" by auto
          have "concat (map raw (flush tokens current
                  @ [inline_token Code (slice s i (e + 1)) (slice s (i + 1) e)])) @ []
                = take (e + 1) s"
            using inv take_slice [OF b(1), of s] by (simp add: concat_raw_flush inline_token_def)
          from "1.IH"(3) [OF lt nb ni Some b(2) this] lt nb ni Some show ?thesis
              by (subst parseInline_loop.simps) simp
        next
          case nc: None
          show ?thesis
          proof (cases "link_ends s i")
            case (Some tu)
            obtain t u where tu: "tu = (t, u)" by (cases tu)
            from link_ends_ge [OF Some [unfolded tu]] link_ends_le [OF Some [unfolded tu]]
            have b: "i \<le> u + 1" "u + 1 \<le> length s" by auto
            have "concat (map raw (flush tokens current
                    @ [link_token (slice s i (u + 1)) (slice s (i + 1) t)
                         (slice s (t + 2) u)])) @ []
                  = take (u + 1) s"
              using inv take_slice [OF b(1), of s] by (simp add: concat_raw_flush link_token_def)
            from "1.IH"(2) [OF lt nb ni nc Some tu [symmetric] b(2) this] lt nb ni nc Some tu
            show ?thesis by (subst parseInline_loop.simps) simp
          next
            case nl: None
            have "concat (map raw tokens) @ (current @ [s ! i]) = take (i + 1) s"
              using inv lt by (simp add: take_Suc_conv_app_nth)
            from "1.IH"(1) [OF lt nb ni nc nl _ this] lt nb ni nc nl show ?thesis
              by (subst parseInline_loop.simps) simp
          qed
        qed
      qed
    qed
  qed
qed


text \<open>
  C4. Bold is tried before italic at each position: the line \<open>**a*b*c**\<close> gives exactly
  one token, a bold token with text \<open>a*b*c\<close>; the single asterisks inside give no italic
  token and the inner text is kept as it is.
\<close>

theorem C4_bold_before_italic:
  "parseInline ''**a*b*c**''
     = [Token Bold ''**a*b*c**'' (Some ''a*b*c'') None None None None None None]"
  by code_simp

text \<open>
  C9. For every line, the \<open>raw\<close> fields of the tokens of \<open>parseInline\<close>, in order, put
  together give the line back: every character is in exactly one token's raw text.
\<close>

theorem C9_raw_reconstructs_line: "concat (map raw (parseInline line)) = line"
  unfolding parseInline_def by (rule parseInline_loop_raw) simp_all

section \<open>Properties of the entry point, the highlighter and the sanitizer\<close>

text \<open>
  C7. The input \<open>[x](javascript:alert(1))\<close> with \<open>sanitize\<close> on renders a link with
  \<open>href=""\<close>; with \<open>sanitize\<close> off, the URL the link parse captured (it ends at the first
  closing parenthesis) is in the \<open>href\<close> as it is. This holds for every platform whose URL
  parser follows the standard up to the scheme, and with \<open>sanitize\<close> off for every
  platform.
\<close>

theorem C7_javascript_link:
  "parse (new_Markyfy default_options (standard_URL_protocol host_ok) rx)
     ''[x](javascript:alert(1))'' = Some ''<p><a href=\"\">x</a>)</p>'' \<and>
   parse (new_Markyfy (default_options\<lparr>sanitize := False\<rparr>) URL rx)
     ''[x](javascript:alert(1))'' = Some ''<p><a href=\"javascript:alert(1\">x</a>)</p>'' \<and>
   parseInline ''[x](javascript:alert(1))''
     = [Token Link ''[x](javascript:alert(1)'' (Some ''x'') None None None
          (Some ''javascript:alert(1'') None None,
        Token Text '')'' (Some '')'') None None None None None None]"
  by code_simp

text \<open>
  C8. For every code string and every language tag that is not in the registry,
  \<open>highlight\<close> gives the code back unchanged: no span and no escaping.
\<close>

theorem C8_unknown_language_unchanged:
  "language_tag \<notin> dom registry \<Longrightarrow> highlight rx registry code language_tag = code"
  by (auto simp: highlight_def dom_def)

theorem C8_unknown_language_unchanged_witness:
  "''python'' \<notin> dom initial_languages \<and>
   highlight (\<lambda>source flags replacer subject. subject) initial_languages
     ''if (a < b) { return \"x\"; }'' ''python'' = ''if (a < b) { return \"x\"; }''"
proof -
  have d: "''python'' \<notin> dom initial_languages"
    by (simp add: initial_languages_def registerLanguage_def)
  from C8_unknown_language_unchanged [OF d] d show ?thesis by simp
qed

text \<open>
  C10. The sanitizer gives the empty string exactly for the inputs that the URL parser
  accepts with the protocol \<open>javascript:\<close>; every other input, one the parser refuses or
  one of another scheme, comes back unchanged.
\<close>

theorem C10_sanitizeUrl_blocks_javascript_only:
  "sanitizeUrl URL u = (if URL u = Some ''javascript:'' then [] else u)"
  by (simp add: sanitizeUrl_def split: option.split)

theorem C10_sanitizeUrl_blocks_javascript_only_witness:
  "\<forall>host_ok.
     sanitizeUrl (standard_URL_protocol host_ok) ''JavaScript:alert(1)'' = [] \<and>
     sanitizeUrl (standard_URL_protocol host_ok) ''data:text/html,<script>alert(1)</script>''
       = ''data:text/html,<script>alert(1)</script>'' \<and>
     sanitizeUrl (standard_URL_protocol host_ok) ''/relative/path'' = ''/relative/path'' \<and>
     sanitizeUrl (standard_URL_protocol host_ok) ''mailto:a@b.c'' = ''mailto:a@b.c''"
proof
  fix host_ok :: "string \<Rightarrow> string \<Rightarrow> bool"
  have 1: "standard_URL_protocol host_ok ''JavaScript:alert(1)'' = Some ''javascript:''"
    by code_simp
  have 2: "standard_URL_protocol host_ok ''data:text/html,<script>alert(1)</script>''
             = Some ''data:''"
    by code_simp
  have 3: "standard_URL_protocol host_ok ''/relative/path'' = None"
    by code_simp
  have 4: "standard_URL_protocol host_ok ''mailto:a@b.c'' = Some ''mailto:''"
    by code_simp
  show "sanitizeUrl (standard_URL_protocol host_ok) ''JavaScript:alert(1)'' = [] \<and>
     sanitizeUrl (standard_URL_protocol host_ok) ''data:text/html,<script>alert(1)</script>''
       = ''data:text/html,<script>alert(1)</script>'' \<and>
     sanitizeUrl (standard_URL_protocol host_ok) ''/relative/path'' = ''/relative/path'' \<and>
     sanitizeUrl (standard_URL_protocol host_ok) ''mailto:a@b.c'' = ''mailto:a@b.c''"
    unfolding C10_sanitizeUrl_blocks_javascript_only 1 2 3 4 by simp
qed

section \<open>Properties of the block tokenizer\<close>

lemma fence_not_hash: "startsWith l ''```'' 0 \<Longrightarrow> \<not> startsWith l ''#'' 0"
  by (cases l) (auto simp: startsWith_def)

lemma fence_not_quote: "startsWith l ''```'' 0 \<Longrightarrow> \<not> startsWith l ''>'' 0"
  by (cases l) (auto simp: startsWith_def)

lemma codeBlock_loop_unclosed:
  "\<forall>j. i \<le> j \<and> j < length lines \<longrightarrow> \<not> startsWith (lines ! j) ''```'' 0 \<Longrightarrow>
   length lines \<le> snd (codeBlock_loop lines content i)"
proof (induction lines content i rule: codeBlock_loop.induct)
  case (1 lines content i)
  show ?case
  proof (cases "i < length lines")
    case True
    with "1.prems" have nf: "\<not> startsWith (lines ! i) ''```'' 0" by simp
    have "length lines \<le> snd (codeBlock_loop lines (content @ [lines ! i]) (i + 1))"
      using "1.IH" True nf "1.prems" by simp
    with True nf show ?thesis by (subst codeBlock_loop.simps) simp
  next
    case False
    then show ?thesis by (subst codeBlock_loop.simps) simp
  qed
qed

text \<open>
  C2. When the loop of \<open>tokenize\<close> comes to a line that opens a fence and no later line
  starts with a fence, \<open>parseCodeBlock\<close> raises its error, the handler of the loop pushes
  a paragraph token for that one line, with the line as \<open>raw\<close> and the escaped line as
  \<open>text\<close>, and the loop goes on with the next line: the rest of the document is still
  tokenized.
\<close>

theorem C2_unclosed_fence_is_contained:
  assumes "i < length lines"
    and "startsWith (lines ! i) ''```'' 0"
    and "\<forall>j. i < j \<and> j < length lines \<longrightarrow> \<not> startsWith (lines ! j) ''```'' 0"
  shows "parseCodeBlock lines i = Inl Unclosed_code_block \<and>
         tokenize_loop lines i tokens
           = tokenize_loop lines (i + 1)
               (tokens @ [Token Paragraph (lines ! i) (Some (escapeHtml (lines ! i)))
                            None None None None None None])"
proof -
  from assms(3) have "\<forall>j. i + 1 \<le> j \<and> j < length lines \<longrightarrow> \<not> startsWith (lines ! j) ''```'' 0"
    by simp
  from codeBlock_loop_unclosed [OF this]
  have "length lines \<le> snd (codeBlock_loop lines [] (i + 1))" .
  then have pc: "parseCodeBlock lines i = Inl Unclosed_code_block"
    by (cases "codeBlock_loop lines [] (i + 1)") (simp add: parseCodeBlock_def)
  have "tokenize_loop lines i tokens
          = tokenize_loop lines (i + 1) (tokens @ [error_paragraph (lines ! i)])"
    using assms(1,2) pc fence_not_hash [OF assms(2)] fence_not_quote [OF assms(2)]
    by (subst tokenize_loop.simps) simp
  with pc show ?thesis by (simp add: error_paragraph_def)
qed

theorem C2_unclosed_fence_is_contained_witness:
  "parseCodeBlock [''a'', ''```js'', ''b <c>''] 1 = Inl Unclosed_code_block \<and>
   tokenize (''a'' @ newline @ ''```js'' @ newline @ ''b <c>'')
     = Some [Token Paragraph ''a'' None None None None None
               (Some [Token Text ''a'' (Some ''a'') None None None None None None]) None,
             Token Paragraph ''```js'' (Some ''```js'') None None None None None None,
             Token Paragraph ''b <c>'' None None None None None
               (Some [Token Text ''b <c>'' (Some ''b <c>'') None None None None None None])
               None]"
proof -
  let ?L = "[''a'', ''```js'', ''b <c>'']"
  let ?A = "Token Paragraph ''a'' None None None None None
               (Some [Token Text ''a'' (Some ''a'') None None None None None None]) None"
  let ?P = "Token Paragraph ''```js'' (Some ''```js'') None None None None None None"
  let ?B = "Token Paragraph ''b <c>'' None None None None None
               (Some [Token Text ''b <c>'' (Some ''b <c>'') None None None None None None])
               None"
  have l: "split_lines (trim (''a'' @ newline @ ''```js'' @ newline @ ''b <c>'')) = ?L"
    by code_simp
  have a: "(1::nat) < length ?L" by simp
  have b: "startsWith (?L ! 1) ''```'' 0" by code_simp
  have c: "\<forall>j. 1 < j \<and> j < length ?L \<longrightarrow> \<not> startsWith (?L ! j) ''```'' 0"
  proof (intro allI impI)
    fix j :: nat
    assume "1 < j \<and> j < length ?L"
    then have "j = 2" by simp
    then show "\<not> startsWith (?L ! j) ''```'' 0"
      by (simp add: startsWith_def)
  qed
  have e: "escapeHtml ''```js'' = ''```js''" by code_simp
  have n: "?L ! 1 = ''```js''" by simp
  note step = C2_unclosed_fence_is_contained [OF a b c, of "[?A]"]
  from step have pc: "parseCodeBlock ?L 1 = Inl Unclosed_code_block" by (rule conjunct1)
  from step have "tokenize_loop ?L 1 [?A] = tokenize_loop ?L (1 + 1) ([?A] @ [?P])"
    unfolding n e by (rule conjunct2)
  then have s1: "tokenize_loop ?L 1 [?A] = tokenize_loop ?L 2 [?A, ?P]"
    by (simp only: one_add_one append_Cons append_Nil)
  have s0: "tokenize_loop ?L 0 [] = tokenize_loop ?L 1 [?A]"
    by code_simp
  have s2: "tokenize_loop ?L 2 [?A, ?P] = Some [?A, ?P, ?B]"
    by code_simp
  have "tokenize (''a'' @ newline @ ''```js'' @ newline @ ''b <c>'') = tokenize_loop ?L 0 []"
    unfolding tokenize_def l ..
  also note s0
  also note s1
  also note s2
  finally show ?thesis using pc by (rule conjI [rotated])
qed

lemma slice_Cons: "i < j \<Longrightarrow> i < length xs \<Longrightarrow> slice xs i j = xs ! i # slice xs (i + 1) j"
proof -
  assume a: "i < j" "i < length xs"
  then obtain d where d: "j - i = Suc d" by (cases "j - i") auto
  have "drop i xs = xs ! i # drop (Suc i) xs" using a(2) by (simp add: Cons_nth_drop_Suc)
  moreover from d have "j - Suc i = d" by simp
  ultimately show ?thesis using d by (simp add: slice_def)
qed

lemma slice_empty: "slice xs i i = []"
  by (simp add: slice_def)

lemma blockquote_loop_content:
  "blockquote_loop lines content i0 = (content', i) \<Longrightarrow>
   i0 \<le> i \<and>
   content' = content @ map (\<lambda>l. trim (drop 1 l)) (filter (\<lambda>l. trim l \<noteq> []) (slice lines i0 i)) \<and>
   (\<forall>l \<in> set (filter (\<lambda>l. trim l \<noteq> []) (slice lines i0 i)). startsWith l ''>'' 0)"
proof (induction lines content i0 rule: blockquote_loop.induct)
  case (1 lines content i0)
  show ?case
  proof (cases "i0 < length lines \<and> (startsWith (lines ! i0) ''>'' 0 \<or> trim (lines ! i0) = [])")
    case False
    with "1.prems" have "content' = content" "i = i0"
      by (subst (asm) blockquote_loop.simps, simp)+
    then show ?thesis by (simp add: slice_empty)
  next
    case True
    let ?c = "if trim (lines ! i0) \<noteq> [] then content @ [trim (slice_from (lines ! i0) 1)]
              else content"
    from True "1.prems" have r: "blockquote_loop lines ?c (i0 + 1) = (content', i)"
      by (subst (asm) blockquote_loop.simps) simp
    from "1.IH" [OF True r]
    have ih: "i0 + 1 \<le> i"
      "content' = ?c @ map (\<lambda>l. trim (drop 1 l))
                        (filter (\<lambda>l. trim l \<noteq> []) (slice lines (i0 + 1) i))"
      "\<forall>l \<in> set (filter (\<lambda>l. trim l \<noteq> []) (slice lines (i0 + 1) i)). startsWith l ''>'' 0"
      by auto
    from ih(1) True have sl: "slice lines i0 i = lines ! i0 # slice lines (i0 + 1) i"
      by (intro slice_Cons) auto
    show ?thesis
      using ih True unfolding sl by (auto simp: slice_from_def)
  qed
qed

text \<open>
  C5, as the code has it. The lines a block quote consumes are those from its start up to
  the end of its scan. Each of them that is not blank starts with \<open>>\<close> and contributes
  itself without that first character and then trimmed: all white space at both ends goes,
  not one space only. The collected lines, joined by newlines, are tokenized, and the
  result is the \<open>children\<close> of the block quote.
\<close>

theorem C5_blockquote_content:
  assumes "blockquote_loop lines [] startIndex = (content, i)"
  shows "content = map (\<lambda>l. trim (drop 1 l))
                     (filter (\<lambda>l. trim l \<noteq> []) (slice lines startIndex i)) \<and>
         (\<forall>l \<in> set (filter (\<lambda>l. trim l \<noteq> []) (slice lines startIndex i)).
            startsWith l ''>'' 0) \<and>
         parseBlockquote lines startIndex
           = map_option
               (\<lambda>children.
                  (Token Blockquote (join newline (slice lines startIndex i)) None None None
                     None None (Some children) None, i - 1))
               (tokenize (join newline content))"
  using blockquote_loop_content [OF assms] assms
  by (simp add: parseBlockquote_def blockquote_token_def)

theorem C5_blockquote_content_witness:
  "blockquote_loop [''> a'', '''', ''>   b  '', ''c''] [] 0 = ([''a'', ''b''], 3) \<and>
   parseBlockquote [''> a'', '''', ''>   b  '', ''c''] 0
     = Some (Token Blockquote (''> a'' @ newline @ newline @ ''>   b  '') None None None None None
               (Some [Token Paragraph ''a'' None None None None None
                        (Some [Token Text ''a'' (Some ''a'') None None None None None None])
                        None,
                      Token Paragraph ''b'' None None None None None
                        (Some [Token Text ''b'' (Some ''b'') None None None None None None])
                        None])
               None, 2)"
proof -
  let ?L = "[''> a'', '''', ''>   b  '', ''c'']"
  have bl: "blockquote_loop ?L [] 0 = ([''a'', ''b''], 3)"
    by code_simp
  have tk: "tokenize (join newline [''a'', ''b''])
              = Some [Token Paragraph ''a'' None None None None None
                        (Some [Token Text ''a'' (Some ''a'') None None None None None None])
                        None,
                      Token Paragraph ''b'' None None None None None
                        (Some [Token Text ''b'' (Some ''b'') None None None None None None])
                        None]"
    by code_simp
  have sl: "join newline (slice ?L 0 3) = ''> a'' @ newline @ newline @ ''>   b  ''"
    by code_simp
  from C5_blockquote_content [OF bl] have
    "parseBlockquote ?L 0
       = map_option
           (\<lambda>children.
              (Token Blockquote (join newline (slice ?L 0 3)) None None None
                 None None (Some children) None, 3 - 1))
           (tokenize (join newline [''a'', ''b'']))"
    by (elim conjE)
  with bl show ?thesis unfolding tk sl by simp
qed

text \<open>
  C5 as stated fails: of \<open>>   two  \<close> the code keeps \<open>two\<close>, where removing the \<open>>\<close>
  and one space leaves two spaces before and two after.
\<close>

theorem C5_blockquote_content_counterexample:
  "blockquote_loop [''>   two  '', ''>next''] [] 0 = ([''two'', ''next''], 2) \<and>
   map spec_quote_content [''>   two  '', ''>next''] = [''  two  '', ''next''] \<and>
   fst (blockquote_loop [''>   two  '', ''>next''] [] 0)
     \<noteq> map spec_quote_content [''>   two  '', ''>next'']"
  by code_simp

lemma takeWhile_hashes:
  "rest \<noteq> [] \<Longrightarrow> hd rest \<noteq> c \<Longrightarrow>
   takeWhile (\<lambda>x. x = c) (replicate k c @ rest) = replicate k c"
  by (induction k) (auto simp: neq_Nil_conv)

lemma takeWhile_hashes_only: "takeWhile (\<lambda>x. x = c) (replicate k c) = replicate k c"
  by (induction k) auto

lemma hash_not_whitespace: "is_whitespace c \<Longrightarrow> c \<noteq> CHR ''#''"
  by (auto simp: is_whitespace_def)

lemma space_then_text_Some:
  assumes "ws \<noteq> []" "list_all is_whitespace ws" "t \<noteq> []" "\<not> list_ex is_line_terminator t"
  shows "space_then_text (ws @ t)
           = Some (if dropWhile is_whitespace t \<noteq> [] then dropWhile is_whitespace t
                   else [last t])"
proof -
  from assms(2) have all: "\<forall>x \<in> set ws. is_whitespace x" by (simp add: list_all_iff)
  then have w: "takeWhile is_whitespace (ws @ t) = ws @ takeWhile is_whitespace t"
    by (simp add: takeWhile_append2)
  from all have d: "dropWhile is_whitespace (ws @ t) = dropWhile is_whitespace t"
    by (simp add: dropWhile_append2)
  show ?thesis
  proof (cases "dropWhile is_whitespace t = []")
    case False
    have "set (dropWhile is_whitespace t) \<subseteq> set t"
      by (auto dest: set_dropWhileD)
    with assms(4) have "\<not> list_ex is_line_terminator (dropWhile is_whitespace t)"
      by (auto simp: list_ex_iff)
    with False assms(1) show ?thesis by (simp add: space_then_text_def w d)
  next
    case True
    then have tw: "takeWhile is_whitespace t = t"
      by (metis append_Nil2 takeWhile_dropWhile_id)
    from assms(3,4) have "\<not> is_line_terminator (last t)" by (auto simp: list_ex_iff)
    moreover from assms(1,3) have "2 \<le> length (ws @ t)"
      by (cases ws; cases t) auto
    ultimately show ?thesis using True assms(1,3) by (simp add: space_then_text_def w d tw)
  qed
qed

text \<open>
  C6, as the code has it. A line of one to six \<open>#\<close>, then white space, then a non-empty
  text with no line terminator in it (no carriage return) gives a header token whose depth
  is the number of the leading \<open>#\<close>. A line with more than six leading \<open>#\<close>, or of
  \<open>#\<close> only, gives a paragraph token whose children are the inline tokens of the line.
\<close>

theorem C6_header_depth:
  "(1 \<le> k \<and> k \<le> 6 \<and> ws \<noteq> [] \<and> list_all is_whitespace ws \<and> t \<noteq> [] \<and>
      \<not> list_ex is_line_terminator t \<longrightarrow>
      type (parseHeader (replicate k (CHR ''#'') @ ws @ t)) = Header \<and>
      depth (parseHeader (replicate k (CHR ''#'') @ ws @ t)) = Some k) \<and>
   (6 < length (takeWhile (\<lambda>c. c = CHR ''#'') line) \<or> line = replicate n (CHR ''#'') \<longrightarrow>
      parseHeader line
        = Token Paragraph line None None None None None (Some (parseInline line)) None)"
proof (intro conjI impI)
  assume a: "1 \<le> k \<and> k \<le> 6 \<and> ws \<noteq> [] \<and> list_all is_whitespace ws \<and> t \<noteq> [] \<and>
      \<not> list_ex is_line_terminator t"
  then have "hd (ws @ t) \<noteq> CHR ''#''"
    by (cases ws) (auto dest: hash_not_whitespace)
  with a have tw: "takeWhile (\<lambda>c. c = CHR ''#'') (replicate k (CHR ''#'') @ ws @ t)
                     = replicate k (CHR ''#'')"
    by (intro takeWhile_hashes) auto
  from a have st: "space_then_text (ws @ t)
           = Some (if dropWhile is_whitespace t \<noteq> [] then dropWhile is_whitespace t
                   else [last t])"
    by (intro space_then_text_Some) auto
  from a have hm: "header_match (replicate k (CHR ''#'') @ ws @ t)
          = Some (k, Some (if dropWhile is_whitespace t \<noteq> [] then dropWhile is_whitespace t
                   else [last t]))"
    unfolding header_match_def tw by (simp add: st Let_def)
  show "type (parseHeader (replicate k (CHR ''#'') @ ws @ t)) = Header"
    unfolding parseHeader_def hm by (simp add: header_token_def)
  show "depth (parseHeader (replicate k (CHR ''#'') @ ws @ t)) = Some k"
    unfolding parseHeader_def hm by (simp add: header_token_def)
next
  assume "6 < length (takeWhile (\<lambda>c. c = CHR ''#'') line) \<or> line = replicate n (CHR ''#'')"
  then have "header_match line = None \<or> (\<exists>m. header_match line = Some (m, None))"
  proof
    assume "6 < length (takeWhile (\<lambda>c. c = CHR ''#'') line)"
    then show ?thesis by (simp add: header_match_def Let_def)
  next
    assume "line = replicate n (CHR ''#'')"
    then show ?thesis by (simp add: header_match_def Let_def takeWhile_hashes_only)
  qed
  then show "parseHeader line
        = Token Paragraph line None None None None None (Some (parseInline line)) None"
    by (auto simp: parseHeader_def paragraph_token_def)
qed

theorem C6_header_depth_witness:
  "type (parseHeader ''##   Title here'') = Header \<and>
   depth (parseHeader ''##   Title here'') = Some 2 \<and>
   parseHeader ''#######''
     = Token Paragraph ''#######'' None None None None None
         (Some [Token Text ''#######'' (Some ''#######'') None None None None None None]) None \<and>
   parseHeader ''###''
     = Token Paragraph ''###'' None None None None None
         (Some [Token Text ''###'' (Some ''###'') None None None None None None]) None"
proof -
  have p7: "parseInline ''#######''
              = [Token Text ''#######'' (Some ''#######'') None None None None None None]"
    by code_simp
  have p3: "parseInline ''###''
              = [Token Text ''###'' (Some ''###'') None None None None None None]"
    by code_simp
  have l7: "(6::nat) < length (takeWhile (\<lambda>c. c = CHR ''#'') ''#######'')" by simp
  have r3: "''###'' = replicate 3 (CHR ''#'')" by (simp add: numeral_3_eq_3)
  have w: "list_all is_whitespace ''   ''" by (simp add: is_whitespace_def)
  have nl: "\<not> list_ex is_line_terminator ''Title here''" by (simp add: is_line_terminator_def)
  have e: "''##   Title here'' = replicate 2 (CHR ''#'') @ ''   '' @ ''Title here''"
    by (simp add: numeral_2_eq_2)
  from C6_header_depth [of 2 "''   ''" "''Title here''" "''#######''" 0] w nl l7
  have a: "type (parseHeader ''##   Title here'') = Header"
    "depth (parseHeader ''##   Title here'') = Some 2"
    "parseHeader ''#######''
       = Token Paragraph ''#######'' None None None None None (Some (parseInline ''#######'')) None"
    unfolding e by auto
  from C6_header_depth [of 0 "[]" "[]" "''###''" 3] r3
  have b: "parseHeader ''###''
       = Token Paragraph ''###'' None None None None None (Some (parseInline ''###'')) None"
    by blast
  from a b show ?thesis unfolding p7 p3 by simp
qed

text \<open>
  C6 as stated fails when the text holds a carriage return, as every line but the last of
  a document with CRLF line ends does: \<open>.\<close> refuses it and the line becomes a paragraph.
\<close>

theorem C6_header_depth_counterexample:
  "type (parseHeader (replicate 1 (CHR ''#'') @ '' '' @ (''Title'' @ [CHR 0x0D]))) = Paragraph \<and>
   depth (parseHeader (replicate 1 (CHR ''#'') @ '' '' @ (''Title'' @ [CHR 0x0D]))) = None \<and>
   map_option (map type) (tokenize (''# Title'' @ [CHR 0x0D, CHR 0x0A] @ ''text''))
     = Some [Paragraph, Paragraph]"
  by code_simp

section \<open>Properties of the list parser\<close>

lemma pop_levels_pops:
  "\<exists>k. k \<le> length (listStack st) - 1 \<and>
     pop_levels indent st
       = st\<lparr>listStack := take (length (listStack st) - k) (listStack st),
            currentIndent := currentIndent st - 2 * int k\<rparr> \<and>
     (\<forall>j < k. int indent < currentIndent st - 2 * int j \<and> 1 < length (listStack st) - j) \<and>
     \<not> (int indent < currentIndent st - 2 * int k \<and> 1 < length (listStack st) - k)"
proof (induction indent st rule: pop_levels.induct)
  case (1 indent st)
  show ?case
  proof (cases "int indent < currentIndent st \<and> length (listStack st) > 1")
    case False
    then have "pop_levels indent st = st" by (subst pop_levels.simps) auto
    with False show ?thesis by (intro exI [of _ 0]) simp
  next
    case True
    let ?st = "st\<lparr>listStack := butlast (listStack st), currentIndent := currentIndent st - 2\<rparr>"
    from "1.IH" [OF True] obtain k where k:
      "k \<le> length (listStack ?st) - 1"
      "pop_levels indent ?st
         = ?st\<lparr>listStack := take (length (listStack ?st) - k) (listStack ?st),
               currentIndent := currentIndent ?st - 2 * int k\<rparr>"
      "\<forall>j < k. int indent < currentIndent ?st - 2 * int j \<and> 1 < length (listStack ?st) - j"
      "\<not> (int indent < currentIndent ?st - 2 * int k \<and> 1 < length (listStack ?st) - k)"
      by blast
    have lb: "length (listStack ?st) = length (listStack st) - 1"
      and cb: "currentIndent ?st = currentIndent st - 2"
      by simp_all
    from True have p: "pop_levels indent st = pop_levels indent ?st"
      by (subst pop_levels.simps) simp
    have t: "take (length (listStack st) - Suc k) (butlast (listStack st))
               = take (length (listStack st) - Suc k) (listStack st)"
      using True by (intro take_butlast) linarith
    have a: "Suc k \<le> length (listStack st) - 1"
      using k(1) True unfolding lb by linarith
    have b: "pop_levels indent st
               = st\<lparr>listStack := take (length (listStack st) - Suc k) (listStack st),
                    currentIndent := currentIndent st - 2 * int (Suc k)\<rparr>"
      unfolding p k(2) using t by simp
    have c: "\<forall>j < Suc k. int indent < currentIndent st - 2 * int j
               \<and> 1 < length (listStack st) - j"
    proof (intro allI impI)
      fix j assume j: "j < Suc k"
      show "int indent < currentIndent st - 2 * int j \<and> 1 < length (listStack st) - j"
      proof (cases j)
        case 0
        with True show ?thesis by simp
      next
        case (Suc j')
        with j have "j' < k" by simp
        with k(3) have "int indent < currentIndent ?st - 2 * int j'
                          \<and> 1 < length (listStack ?st) - j'" by blast
        then have "int indent < currentIndent st - 2 - 2 * int j'
                     \<and> 1 < length (listStack st) - 1 - j'"
          unfolding lb cb .
        with Suc show ?thesis by auto
      qed
    qed
    have d: "\<not> (int indent < currentIndent st - 2 * int (Suc k)
               \<and> 1 < length (listStack st) - Suc k)"
      using k(4) unfolding lb cb by auto
    from a b c d show ?thesis by blast
  qed
qed

text \<open>
  C3, as the code has it. On an item line, when the indentation is greater than the
  tracked one, exactly one level is opened: a new array at a new address goes on the
  stack, the last item of the level that was current refers to it in \<open>items\<close> (nothing is
  attached when that level is empty), no other array changes, and the tracked indentation
  becomes the indentation of the line. When the indentation is less, levels are popped one
  at a time, the tracked indentation going down by 2 at each, as long as the indentation
  is less than the tracked one and more than the root is on the stack: the pops end when
  the tracked indentation is not greater than the indentation of the line any more (it can
  end below it) or when only the root is left.
\<close>

theorem C3_list_levels:
  "(currentIndent st < int indent \<and> listStack st \<noteq> [] \<and>
      last (listStack st) < length (arrays st) \<longrightarrow>
      listStack (adjust_levels st indent) = listStack st @ [length (arrays st)] \<and>
      currentIndent (adjust_levels st indent) = int indent \<and>
      length (arrays (adjust_levels st indent)) = length (arrays st) + 1 \<and>
      arrays (adjust_levels st indent) ! length (arrays st) = [] \<and>
      arrays (adjust_levels st indent) ! last (listStack st)
        = (if arrays st ! last (listStack st) = [] then []
           else butlast (arrays st ! last (listStack st))
                @ [(last (arrays st ! last (listStack st)))
                     \<lparr>item_items := Some (length (arrays st))\<rparr>]) \<and>
      (\<forall>a < length (arrays st).
         a \<noteq> last (listStack st) \<longrightarrow> arrays (adjust_levels st indent) ! a = arrays st ! a)) \<and>
   (int indent < currentIndent st \<and> listStack st \<noteq> [] \<longrightarrow>
      (\<exists>k < length (listStack st).
         adjust_levels st indent
           = st\<lparr>listStack := take (length (listStack st) - k) (listStack st),
                currentIndent := currentIndent st - 2 * int k\<rparr> \<and>
         (\<forall>j < k. int indent < currentIndent st - 2 * int j) \<and>
         (currentIndent st - 2 * int k \<le> int indent \<or> length (listStack st) - k = 1)))"
proof (intro conjI impI)
  assume a: "currentIndent st < int indent \<and> listStack st \<noteq> [] \<and>
      last (listStack st) < length (arrays st)"
  then have e: "adjust_levels st indent = open_level st indent"
    by (simp add: adjust_levels_def)
  show "listStack (adjust_levels st indent) = listStack st @ [length (arrays st)]"
    unfolding e by (simp add: open_level_def Let_def)
  show "currentIndent (adjust_levels st indent) = int indent"
    unfolding e by (simp add: open_level_def Let_def)
  show "length (arrays (adjust_levels st indent)) = length (arrays st) + 1"
    unfolding e by (simp add: open_level_def Let_def)
  show "arrays (adjust_levels st indent) ! length (arrays st) = []"
    unfolding e by (simp add: open_level_def Let_def nth_append)
  show "arrays (adjust_levels st indent) ! last (listStack st)
        = (if arrays st ! last (listStack st) = [] then []
           else butlast (arrays st ! last (listStack st))
                @ [(last (arrays st ! last (listStack st)))
                     \<lparr>item_items := Some (length (arrays st))\<rparr>])"
    unfolding e using a by (simp add: open_level_def Let_def nth_append)
  show "\<forall>a < length (arrays st).
         a \<noteq> last (listStack st) \<longrightarrow> arrays (adjust_levels st indent) ! a = arrays st ! a"
    unfolding e by (simp add: open_level_def Let_def nth_append)
next
  assume a: "int indent < currentIndent st \<and> listStack st \<noteq> []"
  then have e: "adjust_levels st indent = pop_levels indent st"
    by (simp add: adjust_levels_def)
  from pop_levels_pops [of st indent] obtain k where k:
    "k \<le> length (listStack st) - 1"
    "pop_levels indent st
       = st\<lparr>listStack := take (length (listStack st) - k) (listStack st),
            currentIndent := currentIndent st - 2 * int k\<rparr>"
    "\<forall>j < k. int indent < currentIndent st - 2 * int j \<and> 1 < length (listStack st) - j"
    "\<not> (int indent < currentIndent st - 2 * int k \<and> 1 < length (listStack st) - k)"
    by blast
  from a k(1) have lt: "k < length (listStack st)"
    by (cases "listStack st") auto
  from k(4) lt have fin: "currentIndent st - 2 * int k \<le> int indent \<or> length (listStack st) - k = 1"
    by auto
  show "\<exists>k < length (listStack st).
         adjust_levels st indent
           = st\<lparr>listStack := take (length (listStack st) - k) (listStack st),
                currentIndent := currentIndent st - 2 * int k\<rparr> \<and>
         (\<forall>j < k. int indent < currentIndent st - 2 * int j) \<and>
         (currentIndent st - 2 * int k \<le> int indent \<or> length (listStack st) - k = 1)"
    unfolding e using lt k(2) k(3) fin by blast
qed

theorem C3_list_levels_witness:
  "listStack (adjust_levels
      \<lparr>arrays = [[new_item ''- a'' ''a'' False]], listStack = [0], currentIndent = 0,
       pos = 1\<rparr> 2) = [0, 1] \<and>
   currentIndent (adjust_levels
      \<lparr>arrays = [[new_item ''- a'' ''a'' False]], listStack = [0], currentIndent = 0,
       pos = 1\<rparr> 2) = 2 \<and>
   arrays (adjust_levels
      \<lparr>arrays = [[new_item ''- a'' ''a'' False]], listStack = [0], currentIndent = 0,
       pos = 1\<rparr> 2) ! 1 = [] \<and>
   arrays (adjust_levels
      \<lparr>arrays = [[new_item ''- a'' ''a'' False]], listStack = [0], currentIndent = 0,
       pos = 1\<rparr> 2) ! 0 = [(new_item ''- a'' ''a'' False)\<lparr>item_items := Some 1\<rparr>] \<and>
   adjust_levels \<lparr>arrays = [[], [], []], listStack = [0, 1, 2], currentIndent = 4, pos = 3\<rparr> 1
     = \<lparr>arrays = [[], [], []], listStack = [0], currentIndent = 0, pos = 3\<rparr>"
proof -
  let ?S1 = "\<lparr>arrays = [[new_item ''- a'' ''a'' False]], listStack = [0], currentIndent = 0,
       pos = 1\<rparr>"
  let ?S3 = "\<lparr>arrays = [[], [], []], listStack = [0, 1, 2], currentIndent = 4, pos = 3\<rparr>"
  have h1: "currentIndent ?S1 < int 2 \<and> listStack ?S1 \<noteq> [] \<and>
              last (listStack ?S1) < length (arrays ?S1)"
    by simp
  from C3_list_levels [of ?S1 2] h1
  have a: "listStack (adjust_levels ?S1 2) = listStack ?S1 @ [length (arrays ?S1)]"
    "currentIndent (adjust_levels ?S1 2) = int 2"
    "arrays (adjust_levels ?S1 2) ! length (arrays ?S1) = []"
    "arrays (adjust_levels ?S1 2) ! last (listStack ?S1)
        = (if arrays ?S1 ! last (listStack ?S1) = [] then []
           else butlast (arrays ?S1 ! last (listStack ?S1))
                @ [(last (arrays ?S1 ! last (listStack ?S1)))
                     \<lparr>item_items := Some (length (arrays ?S1))\<rparr>])"
    by blast+
  have h3: "int 1 < currentIndent ?S3 \<and> listStack ?S3 \<noteq> []" by simp
  from C3_list_levels [of ?S3 1] h3
  obtain k where k: "k < length (listStack ?S3)"
    "adjust_levels ?S3 1
       = ?S3\<lparr>listStack := take (length (listStack ?S3) - k) (listStack ?S3),
              currentIndent := currentIndent ?S3 - 2 * int k\<rparr>"
    "\<forall>j < k. int 1 < currentIndent ?S3 - 2 * int j"
    "currentIndent ?S3 - 2 * int k \<le> int 1 \<or> length (listStack ?S3) - k = 1"
    by blast
  from k(1) have "k < 3" by simp
  moreover from k(4) have "2 \<le> k" by auto
  ultimately have "k = 2" by simp
  with k(2) have b: "adjust_levels ?S3 1
     = \<lparr>arrays = [[], [], []], listStack = [0], currentIndent = 0, pos = 3\<rparr>"
    by simp
  from a b show ?thesis by simp
qed

text \<open>
  C3 as stated fails on its last words: with levels opened at the indentations 2 and 5, an
  item at the indentation 4 pops one level and stops at the tracked indentation 3, which
  is not the indentation of the line, with two levels on the stack.
\<close>

theorem C3_list_levels_counterexample:
  "(let st = parseList_loop [''- a'', ''  - b'', ''     - c''] False
               \<lparr>arrays = [[]], listStack = [0], currentIndent = 0, pos = 0\<rparr>;
        indent = indent_of ''    - d'';
        st' = adjust_levels st indent
    in listStack st = [0, 1, 2] \<and> currentIndent st = 5 \<and> indent = 4 \<and>
       listStack st' = [0, 1] \<and> currentIndent st' = 3 \<and>
       currentIndent st' \<noteq> int indent \<and> length (listStack st') \<noteq> 1)"
  by code_simp

section \<open>A document on which the entry point does not return\<close>




end
